theory Spec2Isabelle
  imports Main "HOL-Library.Multiset"
begin

section \<open>Strings and characters\<close>

text \<open>
  A Python \<open>str\<close> is modelled as a \<open>string\<close>: one \<open>char\<close> per code point, for the code
  points below 256. The three characters the patcher treats specially are named.
\<close>

definition LF :: char where
  "LF = CHR 0x0A"

definition CR :: char where
  "CR = CHR 0x0D"

definition TAB :: char where
  "TAB = CHR 0x09"

text \<open>The character class \<open>[ \t]\<close> of the tokenizer's regular expression.\<close>

definition is_blank :: "char \<Rightarrow> bool" where
  "is_blank c = (c = CHR '' '' \<or> c = TAB)"

text \<open>
  \<open>str.isspace\<close> on one character, which decides what \<open>str.strip()\<close> removes: the code
  points 9 to 13, 28 to 32, 133 and 160.
\<close>

definition py_isspace :: "char \<Rightarrow> bool" where
  "py_isspace c = (of_char c \<in> set [9, 10, 11, 12, 13, 28, 29, 30, 31, 32, 133, 160 :: nat])"

definition py_strip :: "string \<Rightarrow> string" where
  "py_strip s = rev (dropWhile py_isspace (rev (dropWhile py_isspace s)))"

text \<open>\<open>sep.join(parts)\<close>.\<close>

fun py_join :: "string \<Rightarrow> string list \<Rightarrow> string" where
  "py_join sep [] = []"
| "py_join sep [p] = p"
| "py_join sep (p # q # ps) = p @ sep @ py_join sep (q # ps)"

text \<open>Puts a character in front of the first piece of a split.\<close>

fun cons_first :: "char \<Rightarrow> string list \<Rightarrow> string list" where
  "cons_first c [] = [[c]]"
| "cons_first c (p # ps) = (c # p) # ps"

text \<open>
  \<open>text.split(sep)\<close> for a non-empty separator: the text is scanned from the left, every
  occurrence of the separator found there ends a piece, and the scan goes on behind it.
  (Python raises \<open>ValueError\<close> on an empty separator; \<open>detect_newline\<close> never returns one,
  and the model gives the unsplit text back there.)
\<close>

function py_split :: "string \<Rightarrow> string \<Rightarrow> string list" where
  "py_split sep [] = [[]]"
| "py_split sep (c # cs) =
     (if sep \<noteq> [] \<and> take (length sep) (c # cs) = sep
      then [] # py_split sep (drop (length sep) (c # cs))
      else cons_first c (py_split sep cs))"
  by pat_completeness auto
termination
  by (relation "measure (\<lambda>(sep, s). length s)") auto

text \<open>\<open>re.split(r"\r\n|\n", s)\<close>: at every position the two-character newline is tried first.\<close>

fun re_split_newline :: "string \<Rightarrow> string list" where
  "re_split_newline [] = [[]]"
| "re_split_newline [c] = (if c = LF then [[], []] else [[c]])"
| "re_split_newline (c # d # cs) =
     (if c = CR \<and> d = LF then [] # re_split_newline cs
      else if c = LF then [] # re_split_newline (d # cs)
      else cons_first c (re_split_newline (d # cs)))"

section \<open>Line tokenizer\<close>

text \<open>
  \<open>StructuredLine.__init__\<close> matches the line against
  \<^verbatim>\<open>(^[ \t]*)(.*?)([ \t]*$)\<close> with \<open>re.match\<close>. The three groups are modelled as the
  backtracking matcher runs them. Without flags, \<open>.\<close> matches every character but the line
  feed, and \<open>$\<close> matches at the end of the string and also just before a line feed that is
  the last character of the string.
\<close>

definition at_dollar :: "string \<Rightarrow> bool" where
  "at_dollar rest = (rest = [] \<or> rest = [LF])"

text \<open>
  Group 3, \<^verbatim>\<open>([ \t]*$)\<close>, on the rest of the line: the star is greedy, so the longest run is
  tried first and given back character by character until \<open>$\<close> matches.
\<close>

fun match_trailing :: "string \<Rightarrow> string option" where
  "match_trailing [] = (if at_dollar [] then Some [] else None)"
| "match_trailing (c # cs) =
     (case (if is_blank c then match_trailing cs else None) of
        Some t \<Rightarrow> Some (c # t)
      | None \<Rightarrow> if at_dollar (c # cs) then Some [] else None)"

text \<open>
  Group 2, \<^verbatim>\<open>(.*?)\<close>, followed by group 3: the star is lazy, so the shortest content is
  tried first and extended by one character that is not a line feed whenever the rest fails.
  The result is the pair (content, trailing).
\<close>

fun match_content :: "string \<Rightarrow> (string \<times> string) option" where
  "match_content [] =
     (case match_trailing [] of Some t \<Rightarrow> Some ([], t) | None \<Rightarrow> None)"
| "match_content (c # cs) =
     (case match_trailing (c # cs) of
        Some t \<Rightarrow> Some ([], t)
      | None \<Rightarrow>
          if c \<noteq> LF
          then (case match_content cs of Some (k, t) \<Rightarrow> Some (c # k, t) | None \<Rightarrow> None)
          else None)"

text \<open>
  Group 1, \<^verbatim>\<open>(^[ \t]*)\<close>, followed by the two others: greedy again. The result is the triple
  (indent, content, trailing), or \<open>None\<close> when \<open>re.match\<close> returns \<open>None\<close>.
\<close>

fun re_match_line :: "string \<Rightarrow> (string \<times> string \<times> string) option" where
  "re_match_line [] =
     (case match_content [] of Some (k, t) \<Rightarrow> Some ([], k, t) | None \<Rightarrow> None)"
| "re_match_line (c # cs) =
     (case (if is_blank c then re_match_line cs else None) of
        Some (i, k, t) \<Rightarrow> Some (c # i, k, t)
      | None \<Rightarrow>
          (case match_content (c # cs) of Some (k, t) \<Rightarrow> Some ([], k, t) | None \<Rightarrow> None))"

record structured_line =
  original_line :: string
  indent :: string
  content :: string
  trailing :: string

definition StructuredLine :: "string \<Rightarrow> structured_line" where
  "StructuredLine line =
     (case re_match_line line of
        Some (i, k, t) \<Rightarrow> \<lparr>original_line = line, indent = i, content = k, trailing = t\<rparr>
      | None \<Rightarrow> \<lparr>original_line = line, indent = [], content = line, trailing = []\<rparr>)"

definition reconstruct :: "structured_line \<Rightarrow> string" where
  "reconstruct l = indent l @ content l @ trailing l"

section \<open>Buffer splitter\<close>

text \<open>The test \<open>"\r\n" in text\<close>.\<close>

fun contains_crlf :: "string \<Rightarrow> bool" where
  "contains_crlf (c # d # cs) = ((c = CR \<and> d = LF) \<or> contains_crlf (d # cs))"
| "contains_crlf _ = False"

definition detect_newline :: "string \<Rightarrow> string" where
  "detect_newline text = (if contains_crlf text then [CR, LF] else [LF])"

definition split_lines_preserve :: "string \<Rightarrow> string \<Rightarrow> string list" where
  "split_lines_preserve text newline = (if text = [] then [[]] else py_split newline text)"

section \<open>Hunk locator\<close>

text \<open>
  The inner loop of \<open>locate_hunk\<close> over \<open>enumerate(search_lines)\<close>: it leaves with
  \<open>ok = False\<close> at the first position whose contents differ. The read
  \<open>file_lines[start + offset]\<close> is in range for every \<open>start\<close> the outer loop tries
  (lemma \<open>locate_hunk_reads_in_range\<close> below).
\<close>

fun window_ok :: "structured_line list \<Rightarrow> bool \<Rightarrow> nat \<Rightarrow> (nat \<times> structured_line) list \<Rightarrow> bool" where
  "window_ok file_lines floating start [] = True"
| "window_ok file_lines floating start ((offset, s_line) # rest) =
     (let f_line = file_lines ! (start + offset);
          f_cont = (if floating then py_strip (content f_line) else content f_line);
          s_cont = (if floating then py_strip (content s_line) else content s_line)
      in if f_cont \<noteq> s_cont then False else window_ok file_lines floating start rest)"

definition locate_hunk :: "structured_line list \<Rightarrow> structured_line list \<Rightarrow> bool \<Rightarrow> nat list" where
  "locate_hunk file_lines search_lines floating =
     (if search_lines = [] then []
      else
        let window = length search_lines;
            max_start = int (length file_lines) - int window
        in if max_start < 0 then []
           else filter (\<lambda>start. window_ok file_lines floating start (enumerate 0 search_lines))
                  [0 ..< nat (max_start + 1)])"

section \<open>Overlap validator\<close>

text \<open>
  One entry of \<open>applications\<close>, the dictionary with the keys \<open>start\<close>, \<open>end\<close> and
  \<open>replace_lines\<close> (\<open>end\<close> is a keyword here, hence \<open>end_idx\<close>).
\<close>

record application =
  start :: nat
  end_idx :: nat
  replace_lines :: "structured_line list"

text \<open>\<open>sorted(..., key=...)\<close> is stable, as \<open>sort_key\<close> is.\<close>

definition check_overlaps :: "application list \<Rightarrow> bool" where
  "check_overlaps applications =
     (if applications = [] then False
      else
        let sorted_apps = sort_key start applications
        in list_ex (\<lambda>(prev, cur). end_idx prev > start cur) (zip sorted_apps (drop 1 sorted_apps)))"

section \<open>Patch engine\<close>

text \<open>
  The exceptions \<open>apply_patch_text\<close> can leave with: \<open>PatchError\<close> with one of its six
  messages (the hunk number is the message's \<open>num\<close>), or the \<open>IndexError\<close> of a list read
  out of range.
\<close>

datatype error =
    NoHunksArray
  | HunkIncomplete nat
  | AmbiguousStrict nat
  | AmbiguousFloating nat
  | HunkNotFound nat
  | OverlappingHunks
  | IndexError

text \<open>
  A hunk is a dictionary read with \<open>h.get\<close>: a key is missing (\<open>None\<close>), or holds a string,
  or holds a value of another type.
\<close>

datatype jvalue = JStr string | JOther

record hunk =
  search_block :: "jvalue option"
  replace_block :: "jvalue option"

text \<open>The two messages given to \<open>log_fn\<close>.\<close>

datatype log_msg = StrictMatch nat | FloatingMatch nat

text \<open>
  The body of the loop over the hunks, for the hunk with number \<open>num\<close>: the field check, the
  tokenization of the two blocks, the two-tier location, and the entry appended to
  \<open>applications\<close> together with the message logged.
\<close>

definition resolve_hunk :: "structured_line list \<Rightarrow> nat \<Rightarrow> hunk \<Rightarrow> error + (application \<times> log_msg)" where
  "resolve_hunk file_lines num h =
     (case (search_block h, replace_block h) of
        (Some (JStr s_blk), Some (JStr r_blk)) \<Rightarrow>
          (let s_lines = map StructuredLine (re_split_newline s_blk);
               r_lines = map StructuredLine (re_split_newline r_blk);
               matches = locate_hunk file_lines s_lines False
           in if length matches > 1 then Inl (AmbiguousStrict num)
              else if length matches = 1
              then Inr (\<lparr>start = matches ! 0, end_idx = matches ! 0 + length s_lines,
                         replace_lines = r_lines\<rparr>, StrictMatch num)
              else
                (let matches = locate_hunk file_lines s_lines True
                 in if length matches > 1 then Inl (AmbiguousFloating num)
                    else if length matches = 0 then Inl (HunkNotFound num)
                    else Inr (\<lparr>start = matches ! 0, end_idx = matches ! 0 + length s_lines,
                               replace_lines = r_lines\<rparr>, FloatingMatch num)))
      | _ \<Rightarrow> Inl (HunkIncomplete num))"

text \<open>
  The loop \<open>for idx, h in enumerate(hunks)\<close>, carrying \<open>applications\<close> and the messages
  logged so far. It reads \<open>file_lines\<close> and never writes it. An exception ends it with the
  messages logged before.
\<close>

fun hunk_loop :: "structured_line list \<Rightarrow> nat \<Rightarrow> hunk list \<Rightarrow> application list \<Rightarrow> log_msg list
    \<Rightarrow> (error + application list) \<times> log_msg list" where
  "hunk_loop file_lines idx [] applications logged = (Inr applications, logged)"
| "hunk_loop file_lines idx (h # hs) applications logged =
     (case resolve_hunk file_lines (idx + 1) h of
        Inl e \<Rightarrow> (Inl e, logged)
      | Inr (app, msg) \<Rightarrow> hunk_loop file_lines (idx + 1) hs (applications @ [app]) (logged @ [msg]))"

text \<open>
  The loop \<open>for i, rl in enumerate(r_lines)\<close> of the applier, carrying \<open>new_l\<close> and
  \<open>file_lines\<close>. The assignment \<open>orig.content = rl.content\<close> changes the line object that
  \<open>file_lines[start + i]\<close> holds, so the list is updated at that index. The read raises
  \<open>IndexError\<close> when the index is out of range; the lines changed before stay changed.
\<close>

fun replace_loop :: "nat \<Rightarrow> nat \<Rightarrow> string \<Rightarrow> nat \<Rightarrow> structured_line list
    \<Rightarrow> structured_line list \<Rightarrow> structured_line list
    \<Rightarrow> error option \<times> structured_line list \<times> structured_line list" where
  "replace_loop st en ind i [] new_l file_lines = (None, new_l, file_lines)"
| "replace_loop st en ind i (rl # rls) new_l file_lines =
     (if st + i < en
      then
        (if st + i < length file_lines
         then
           (let orig = (file_lines ! (st + i))\<lparr>content := content rl\<rparr>
            in replace_loop st en ind (i + 1) rls (new_l @ [orig]) (file_lines[st + i := orig]))
         else (Some IndexError, new_l, file_lines))
      else replace_loop st en ind (i + 1) rls (new_l @ [rl\<lparr>indent := ind\<rparr>]) file_lines)"

text \<open>
  One round of the applier's outer loop: the inherited indent, the inner loop, and the slice
  assignment \<open>file_lines[start:end] = new_l\<close>.
\<close>

definition apply_one :: "application \<Rightarrow> structured_line list \<Rightarrow> error option \<times> structured_line list" where
  "apply_one app file_lines =
     (let st = start app; en = end_idx app; r_lines = replace_lines app;
          ind = (if st < length file_lines then indent (file_lines ! st) else [])
      in case replace_loop st en ind 0 r_lines [] file_lines of
           (Some e, new_l, file_lines') \<Rightarrow> (Some e, file_lines')
         | (None, new_l, file_lines') \<Rightarrow> (None, take st file_lines' @ new_l @ drop en file_lines'))"

fun apply_loop :: "application list \<Rightarrow> structured_line list \<Rightarrow> error option \<times> structured_line list" where
  "apply_loop [] file_lines = (None, file_lines)"
| "apply_loop (app # apps) file_lines =
     (case apply_one app file_lines of
        (Some e, file_lines') \<Rightarrow> (Some e, file_lines')
      | (None, file_lines') \<Rightarrow> apply_loop apps file_lines')"

text \<open>
  \<open>sorted(applications, key=..., reverse=True)\<close>: Python reverses the list, sorts it stably
  and reverses the result, so entries with equal keys keep their order.
\<close>

definition sorted_reverse :: "application list \<Rightarrow> application list" where
  "sorted_reverse applications = rev (sort_key start (rev applications))"

text \<open>
  A run of \<open>apply_patch_text\<close>: what it returns or raises, the list \<open>file_lines\<close> as the run
  leaves it, and the messages given to \<open>log_fn\<close>. The argument \<open>patch_obj\<close> is the value of
  \<open>patch_obj.get("hunks")\<close>: \<open>None\<close> when it is not a list.
\<close>

record run =
  outcome :: "error + string"
  final_lines :: "structured_line list"
  logged_msgs :: "log_msg list"

definition apply_patch_run :: "string \<Rightarrow> hunk list option \<Rightarrow> run" where
  "apply_patch_run file_text patch_obj =
     (let newline = detect_newline file_text;
          file_lines = map StructuredLine (split_lines_preserve file_text newline)
      in case patch_obj of
           None \<Rightarrow> \<lparr>outcome = Inl NoHunksArray, final_lines = file_lines, logged_msgs = []\<rparr>
         | Some hunks \<Rightarrow>
             (case hunk_loop file_lines 0 hunks [] [] of
                (Inl e, logged) \<Rightarrow> \<lparr>outcome = Inl e, final_lines = file_lines, logged_msgs = logged\<rparr>
              | (Inr applications, logged) \<Rightarrow>
                  if check_overlaps applications
                  then \<lparr>outcome = Inl OverlappingHunks, final_lines = file_lines, logged_msgs = logged\<rparr>
                  else
                    (case apply_loop (sorted_reverse applications) file_lines of
                       (Some e, file_lines') \<Rightarrow>
                         \<lparr>outcome = Inl e, final_lines = file_lines', logged_msgs = logged\<rparr>
                     | (None, file_lines') \<Rightarrow>
                         \<lparr>outcome = Inr (py_join newline (map reconstruct file_lines')),
                          final_lines = file_lines', logged_msgs = logged\<rparr>)))"

definition apply_patch_text :: "string \<Rightarrow> hunk list option \<Rightarrow> error + string" where
  "apply_patch_text file_text patch_obj = outcome (apply_patch_run file_text patch_obj)"

section \<open>Notions used in the statements\<close>

text \<open>
  A line reconstructs to itself unless it is a line-feed-free string followed by one line
  feed: there the regular expression matches, \<open>$\<close> stands before that line feed, and no
  group holds it.
\<close>

definition lone_final_LF :: "string \<Rightarrow> bool" where
  "lone_final_LF p = (p \<noteq> [] \<and> last p = LF \<and> LF \<notin> set (butlast p))"

text \<open>Two placements whose ranges \<open>[start, end)\<close> lie one after the other.\<close>

definition disjoint_ranges :: "application \<Rightarrow> application \<Rightarrow> bool" where
  "disjoint_ranges a b = (end_idx a \<le> start b \<or> end_idx b \<le> start a)"

text \<open>
  \<open>every_round P apps file_lines\<close>: the applier's loop over \<open>apps\<close>, started on
  \<open>file_lines\<close>, raises in no round, and \<open>P\<close> holds of every placement and the list it
  meets when its round begins.
\<close>

fun every_round :: "(application \<Rightarrow> structured_line list \<Rightarrow> bool) \<Rightarrow> application list
    \<Rightarrow> structured_line list \<Rightarrow> bool" where
  "every_round P [] file_lines = True"
| "every_round P (app # apps) file_lines =
     (P app file_lines \<and>
      (case apply_one app file_lines of
         (None, file_lines') \<Rightarrow> every_round P apps file_lines'
       | (Some e, file_lines') \<Rightarrow> False))"

text \<open>The lines a round puts in place of \<open>[start, end)\<close>, read off the list the round meets.\<close>

definition spliced_lines :: "application \<Rightarrow> structured_line list \<Rightarrow> structured_line list" where
  "spliced_lines app file_lines =
     map (\<lambda>(i, rl).
            if start app + i < end_idx app
            then (file_lines ! (start app + i))\<lparr>content := content rl\<rparr>
            else rl\<lparr>indent := (if start app < length file_lines then indent (file_lines ! start app) else [])\<rparr>)
         (enumerate 0 (replace_lines app))"



text \<open>
  A content whose leading and trailing whitespace (in the sense of \<open>str.strip\<close>) holds
  spaces and tabs only.
\<close>

definition outer_space_blank :: "string \<Rightarrow> bool" where
  "outer_space_blank c =
     (list_all is_blank (takeWhile py_isspace c) \<and> list_all is_blank (takeWhile py_isspace (rev c)))"

text \<open>
  The buffer after all rounds, described from the original buffer alone.
  \<open>spliced_below file_lines hi apps\<close>, for placements \<open>apps\<close> in descending order that lie
  below \<open>hi\<close>: the original lines below \<open>hi\<close>, where the range of every placement is
  replaced by that placement's new lines (computed on the original buffer) and the lines
  between, before and after the ranges are kept.
\<close>

fun spliced_below :: "structured_line list \<Rightarrow> nat \<Rightarrow> application list \<Rightarrow> structured_line list" where
  "spliced_below file_lines hi [] = take hi file_lines"
| "spliced_below file_lines hi (app # apps) =
     spliced_below file_lines (start app) apps
     @ spliced_lines app file_lines
     @ take (hi - end_idx app) (drop (end_idx app) file_lines)"

section \<open>Properties of the tokenizer\<close>

lemma blank_not_LF: "is_blank c \<Longrightarrow> c \<noteq> LF"
  by (auto simp: is_blank_def LF_def TAB_def)

lemma match_trailing_sound:
  "match_trailing s = Some t \<Longrightarrow> (s = t \<or> s = t @ [LF]) \<and> (\<forall>c \<in> set t. is_blank c)"
proof (induction s arbitrary: t)
  case Nil
  then show ?case by (simp add: at_dollar_def)
next
  case (Cons c cs)
  then show ?case
    by (auto simp: at_dollar_def split: option.splits if_splits)
qed

lemma match_content_sound:
  "match_content s = Some (k, t) \<Longrightarrow>
     (s = k @ t \<or> s = k @ t @ [LF]) \<and> LF \<notin> set k \<and> (\<forall>c \<in> set t. is_blank c)"
proof (induction s arbitrary: k t)
  case Nil
  then show ?case by (simp add: at_dollar_def)
next
  case (Cons c cs)
  show ?case
  proof (cases "match_trailing (c # cs)")
    case (Some u)
    with Cons.prems have "k = []" "t = u" by simp_all
    with match_trailing_sound[OF Some] show ?thesis by simp
  next
    case None
    with Cons.prems obtain k' where c: "c \<noteq> LF" and m: "match_content cs = Some (k', t)" and k: "k = c # k'"
      by (auto split: if_splits option.splits)
    from Cons.IH[OF m] c k show ?thesis by auto
  qed
qed

lemma re_match_line_sound:
  "re_match_line s = Some (i, k, t) \<Longrightarrow>
     (s = i @ k @ t \<or> s = i @ k @ t @ [LF]) \<and> LF \<notin> set k
     \<and> (\<forall>c \<in> set i. is_blank c) \<and> (\<forall>c \<in> set t. is_blank c)"
proof (induction s arbitrary: i k t)
  case Nil
  then show ?case using match_content_sound[of "[]" k t] by (auto split: option.splits)
next
  case (Cons c cs)
  show ?case
  proof (cases "if is_blank c then re_match_line cs else None")
    case (Some r)
    then obtain i' where b: "is_blank c" and m: "re_match_line cs = Some (i', k, t)" and i: "i = c # i'"
      using Cons.prems by (cases r) (auto split: if_splits)
    from Cons.IH[OF m] b i show ?thesis by auto
  next
    case None
    with Cons.prems have m: "match_content (c # cs) = Some (k, t)" and i: "i = []"
      by (simp_all del: match_content.simps split: option.splits)
    from match_content_sound[OF m] i show ?thesis by simp
  qed
qed

lemma match_content_total: "LF \<notin> set s \<Longrightarrow> match_content s \<noteq> None"
  by (induction s) (auto simp: at_dollar_def split: option.splits)

lemma re_match_line_None: "re_match_line s = None \<Longrightarrow> match_content s = None"
  by (cases s) (auto split: option.splits if_splits)

lemma re_match_line_total: "LF \<notin> set s \<Longrightarrow> re_match_line s \<noteq> None"
  using match_content_total re_match_line_None by blast

lemma match_content_last:
  "match_content s = Some (k, t) \<Longrightarrow> k = [] \<or> \<not> is_blank (last k)"
proof (induction s arbitrary: k t)
  case Nil
  then show ?case by (auto split: option.splits)
next
  case (Cons c cs)
  show ?case
  proof (cases "match_trailing (c # cs)")
    case (Some u)
    with Cons.prems show ?thesis by simp
  next
    case None
    with Cons.prems obtain k' where c: "c \<noteq> LF" and m: "match_content cs = Some (k', t)" and k: "k = c # k'"
      by (auto split: if_splits option.splits)
    show ?thesis
    proof (cases "k' = []")
      case True
      with m have "match_trailing cs = Some t"
        by (cases cs) (auto split: option.splits if_splits)
      with None have "\<not> is_blank c" by (auto split: option.splits if_splits)
      with True k show ?thesis by simp
    next
      case False
      with Cons.IH[OF m] k show ?thesis by simp
    qed
  qed
qed

lemma re_match_line_content:
  "re_match_line s = Some (i, k, t) \<Longrightarrow> k = [] \<or> (\<not> is_blank (hd k) \<and> \<not> is_blank (last k))"
proof (induction s arbitrary: i k t)
  case Nil
  then show ?case by (auto split: option.splits)
next
  case (Cons c cs)
  show ?case
  proof (cases "if is_blank c then re_match_line cs else None")
    case (Some r)
    then obtain i' where m: "re_match_line cs = Some (i', k, t)"
      using Cons.prems by (cases r) (auto split: if_splits)
    from Cons.IH[OF m] show ?thesis .
  next
    case None
    with Cons.prems have m: "match_content (c # cs) = Some (k, t)"
      by (simp del: match_content.simps split: option.splits)
    show ?thesis
    proof (cases "k = []")
      case True then show ?thesis by simp
    next
      case False
      with m have hd: "hd k = c" and mc: "match_content cs \<noteq> None"
        by (auto split: option.splits if_splits)
      have "\<not> is_blank c"
      proof
        assume "is_blank c"
        with None have "re_match_line cs = None" by simp
        with re_match_line_None[of cs] mc show False by simp
      qed
      with hd match_content_last[OF m] False show ?thesis by simp
    qed
  qed
qed

section \<open>Properties of splitting and joining\<close>

lemma py_split_not_Nil: "py_split sep s \<noteq> []"
proof (induction sep s rule: py_split.induct)
  case (1 sep)
  then show ?case by simp
next
  case (2 sep c cs)
  then show ?case by (cases "py_split sep cs") auto
qed

lemma py_join_cons_first:
  assumes "ps \<noteq> []"
  shows "py_join sep (cons_first c ps) = c # py_join sep ps"
proof (cases ps)
  case Nil
  with assms show ?thesis by simp
next
  case (Cons p qs)
  then show ?thesis by (cases qs) auto
qed

lemma py_join_Nil_Cons: "ps \<noteq> [] \<Longrightarrow> py_join sep ([] # ps) = sep @ py_join sep ps"
  by (cases ps) auto

lemma py_join_py_split: "py_join sep (py_split sep s) = s"
proof (induction sep s rule: py_split.induct)
  case (1 sep)
  then show ?case by simp
next
  case (2 sep c cs)
  show ?case
  proof (cases "sep \<noteq> [] \<and> take (length sep) (c # cs) = sep")
    case True
    then have a: "py_split sep (c # cs) = [] # py_split sep (drop (length sep) (c # cs))"
      by simp
    have b: "py_split sep (drop (length sep) (c # cs)) \<noteq> []"
      by (rule py_split_not_Nil)
    have "py_join sep (py_split sep (c # cs))
        = py_join sep ([] # py_split sep (drop (length sep) (c # cs)))"
      by (simp only: a)
    also have "\<dots> = sep @ py_join sep (py_split sep (drop (length sep) (c # cs)))"
      by (rule py_join_Nil_Cons[OF b])
    also have "\<dots> = sep @ drop (length sep) (c # cs)"
      by (simp only: 2(1)[OF True])
    also have "\<dots> = take (length sep) (c # cs) @ drop (length sep) (c # cs)"
      using True by simp
    finally show ?thesis by (simp only: append_take_drop_id)
  next
    case False
    then have "py_split sep (c # cs) = cons_first c (py_split sep cs)"
      by auto
    then show ?thesis
      using 2(2)[OF False] py_split_not_Nil[of sep cs] by (simp add: py_join_cons_first)
  qed
qed

lemma join_split_lines_preserve: "py_join newline (split_lines_preserve text newline) = text"
  by (simp add: split_lines_preserve_def py_join_py_split)

lemma py_join_map_cong:
  "(\<And>p. p \<in> set ps \<Longrightarrow> f p = p) \<Longrightarrow> py_join sep (map f ps) = py_join sep ps"
  by (induction sep ps rule: py_join.induct) auto

lemma reconstruct_StructuredLine:
  assumes "\<not> lone_final_LF p"
  shows "reconstruct (StructuredLine p) = p"
proof (cases "re_match_line p")
  case None
  then show ?thesis by (simp add: StructuredLine_def reconstruct_def)
next
  case (Some r)
  obtain i k t where r: "r = (i, k, t)" by (cases r)
  from re_match_line_sound[OF Some[unfolded r]]
  have s: "p = i @ k @ t \<or> p = i @ k @ t @ [LF]" and nk: "LF \<notin> set k"
    and bi: "\<forall>c \<in> set i. is_blank c" and bt: "\<forall>c \<in> set t. is_blank c"
    by simp_all
  have "p \<noteq> i @ k @ t @ [LF]"
  proof
    assume e: "p = i @ k @ t @ [LF]"
    then have "butlast p = i @ k @ t" by (simp add: butlast_append)
    moreover have "LF \<notin> set (i @ k @ t)"
      using nk bi bt blank_not_LF by auto
    ultimately have "lone_final_LF p" using e by (simp add: lone_final_LF_def)
    with assms show False by simp
  qed
  with s have "p = i @ k @ t" by simp
  then show ?thesis using Some r by (simp add: StructuredLine_def reconstruct_def)
qed

section \<open>Round trip of an unpatched buffer\<close>

text \<open>
  C4. Applying a patch with no hunks tokenizes the text and joins the reconstructed lines
  again. The specification says that this returns the text byte for byte, also with mixed line endings.
  On the text \<open>"a\r\nb\n"\<close> it does not: the two-character newline is detected, the second
  piece is \<open>"b\n"\<close>, the regular expression matches it with \<open>$\<close> before the final line feed,
  and the line feed is in none of the three groups. The run returns \<open>"a\r\nb"\<close>. The empty
  text does give exactly one empty line.
\<close>

theorem roundtrip_loses_final_line_feed:
  "apply_patch_text (''a'' @ [CR, LF] @ ''b'' @ [LF]) (Some []) = Inr (''a'' @ [CR, LF] @ ''b'')
   \<and> split_lines_preserve (''a'' @ [CR, LF] @ ''b'' @ [LF]) (detect_newline (''a'' @ [CR, LF] @ ''b'' @ [LF]))
       = [''a'', ''b'' @ [LF]]
   \<and> StructuredLine (''b'' @ [LF]) = \<lparr>original_line = ''b'' @ [LF], indent = [], content = ''b'', trailing = []\<rparr>
   \<and> reconstruct (StructuredLine (''b'' @ [LF])) = ''b''
   \<and> map StructuredLine (split_lines_preserve [] (detect_newline []))
       = [\<lparr>original_line = [], indent = [], content = [], trailing = []\<rparr>]"
  by code_simp

section \<open>Properties of the hunk locator\<close>

lemma window_ok_iff:
  "window_ok file_lines floating st (enumerate n search_lines) \<longleftrightarrow>
     (\<forall>j < length search_lines.
        (if floating then py_strip (content (file_lines ! (st + (n + j)))) = py_strip (content (search_lines ! j))
         else content (file_lines ! (st + (n + j))) = content (search_lines ! j)))"
proof (induction search_lines arbitrary: n)
  case Nil
  then show ?case by simp
next
  case (Cons s ss)
  have "(\<forall>j < length (s # ss). P j) \<longleftrightarrow> P 0 \<and> (\<forall>j < length ss. P (Suc j))" for P
    by (auto simp: less_Suc_eq_0_disj)
  then show ?case using Cons.IH[of "Suc n"] by (simp add: Let_def)
qed

lemma locate_hunk_iff:
  "i \<in> set (locate_hunk file_lines search_lines floating) \<longleftrightarrow>
     search_lines \<noteq> [] \<and> i + length search_lines \<le> length file_lines \<and>
     (\<forall>j < length search_lines.
        (if floating then py_strip (content (file_lines ! (i + j))) = py_strip (content (search_lines ! j))
         else content (file_lines ! (i + j)) = content (search_lines ! j)))"
  unfolding locate_hunk_def Let_def
  by (auto simp: window_ok_iff[of file_lines floating i 0 search_lines, simplified])

lemma locate_hunk_reads_in_range:
  assumes "search_lines \<noteq> []" and "int (length file_lines) - int (length search_lines) \<ge> 0"
    and "st \<in> set [0 ..< nat (int (length file_lines) - int (length search_lines) + 1)]"
    and "offset < length search_lines"
  shows "st + offset < length file_lines"
  using assms by auto

lemma locate_hunk_Nil [simp]: "locate_hunk file_lines [] floating = []"
  by (simp add: locate_hunk_def)

lemma locate_hunk_distinct: "distinct (locate_hunk file_lines search_lines floating)"
  by (simp add: locate_hunk_def Let_def)

lemma cons_first_not_Nil: "cons_first c ps \<noteq> []"
  by (cases ps) simp_all

lemma re_split_newline_not_Nil: "re_split_newline s \<noteq> []"
  by (induction s rule: re_split_newline.induct) (simp_all add: cons_first_not_Nil)

section \<open>Resolution of one hunk\<close>

text \<open>
  C1. For every buffer and every hunk holding two strings, the hunk is located in exact mode
  first. One exact match is the placement (logged as a strict match). Several exact matches
  fail as ambiguous, whatever tolerant mode would find. With no exact match, tolerant mode
  decides: one match is the placement (logged as a floating match), several fail as
  ambiguous, none fails as not found.
\<close>

theorem two_tier_resolution:
  "let s_lines = map StructuredLine (re_split_newline s_blk);
       r_lines = map StructuredLine (re_split_newline r_blk);
       exact = locate_hunk file_lines s_lines False;
       tolerant = locate_hunk file_lines s_lines True;
       res = resolve_hunk file_lines num \<lparr>search_block = Some (JStr s_blk), replace_block = Some (JStr r_blk)\<rparr>
   in (length exact = 1 \<longrightarrow>
         res = Inr (\<lparr>start = exact ! 0, end_idx = exact ! 0 + length s_lines, replace_lines = r_lines\<rparr>,
                    StrictMatch num))
    \<and> (length exact > 1 \<longrightarrow> res = Inl (AmbiguousStrict num))
    \<and> (length exact = 0 \<and> length tolerant = 1 \<longrightarrow>
         res = Inr (\<lparr>start = tolerant ! 0, end_idx = tolerant ! 0 + length s_lines, replace_lines = r_lines\<rparr>,
                    FloatingMatch num))
    \<and> (length exact = 0 \<and> length tolerant > 1 \<longrightarrow> res = Inl (AmbiguousFloating num))
    \<and> (length exact = 0 \<and> length tolerant = 0 \<longrightarrow> res = Inl (HunkNotFound num))"
  by (auto simp: resolve_hunk_def Let_def)

theorem two_tier_resolution_witness:
  "resolve_hunk (map StructuredLine [''a'', '' b'', ''c'']) 1
      \<lparr>search_block = Some (JStr ''b''), replace_block = Some (JStr ''x'')\<rparr>
     = Inr (\<lparr>start = 1, end_idx = 2, replace_lines = [StructuredLine ''x'']\<rparr>, StrictMatch 1)
   \<and> resolve_hunk (map StructuredLine [''a'', ''a'', [CHR 0x0B, CHR ''a'']]) 2
      \<lparr>search_block = Some (JStr ''a''), replace_block = Some (JStr ''x'')\<rparr>
     = Inl (AmbiguousStrict 2)
   \<and> resolve_hunk (map StructuredLine [''a'', [CHR 0x0B, CHR ''b'']]) 3
      \<lparr>search_block = Some (JStr ''b''), replace_block = Some (JStr ''x'')\<rparr>
     = Inr (\<lparr>start = 1, end_idx = 2, replace_lines = [StructuredLine ''x'']\<rparr>, FloatingMatch 3)
   \<and> resolve_hunk (map StructuredLine [[CHR 0x0C, CHR ''b''], [CHR 0x0B, CHR ''b'']]) 4
      \<lparr>search_block = Some (JStr ''b''), replace_block = Some (JStr ''x'')\<rparr>
     = Inl (AmbiguousFloating 4)
   \<and> resolve_hunk (map StructuredLine [''a'', ''c'']) 5
      \<lparr>search_block = Some (JStr ''b''), replace_block = Some (JStr ''x'')\<rparr>
     = Inl (HunkNotFound 5)"
proof -
  have e1: "locate_hunk (map StructuredLine [''a'', '' b'', ''c'']) (map StructuredLine (re_split_newline ''b'')) False = [1]"
    by code_simp
  have e2: "locate_hunk (map StructuredLine [''a'', ''a'', [CHR 0x0B, CHR ''a'']]) (map StructuredLine (re_split_newline ''a'')) False = [0, 1]"
    by code_simp
  have e3: "locate_hunk (map StructuredLine [''a'', [CHR 0x0B, CHR ''b'']]) (map StructuredLine (re_split_newline ''b'')) False = []"
    "locate_hunk (map StructuredLine [''a'', [CHR 0x0B, CHR ''b'']]) (map StructuredLine (re_split_newline ''b'')) True = [1]"
    by code_simp+
  have e4: "locate_hunk (map StructuredLine [[CHR 0x0C, CHR ''b''], [CHR 0x0B, CHR ''b'']]) (map StructuredLine (re_split_newline ''b'')) False = []"
    "locate_hunk (map StructuredLine [[CHR 0x0C, CHR ''b''], [CHR 0x0B, CHR ''b'']]) (map StructuredLine (re_split_newline ''b'')) True = [0, 1]"
    by code_simp+
  have e5: "locate_hunk (map StructuredLine [''a'', ''c'']) (map StructuredLine (re_split_newline ''b'')) False = []"
    "locate_hunk (map StructuredLine [''a'', ''c'']) (map StructuredLine (re_split_newline ''b'')) True = []"
    by code_simp+
  have l: "length (re_split_newline ''b'') = 1" "length (re_split_newline ''a'') = 1"
    "re_split_newline ''x'' = [''x'']"
    by code_simp+
  show ?thesis
    using two_tier_resolution[of "''b''" "''x''" "map StructuredLine [''a'', '' b'', ''c'']" 1]
      two_tier_resolution[of "''a''" "''x''" "map StructuredLine [''a'', ''a'', [CHR 0x0B, CHR ''a'']]" 2]
      two_tier_resolution[of "''b''" "''x''" "map StructuredLine [''a'', [CHR 0x0B, CHR ''b'']]" 3]
      two_tier_resolution[of "''b''" "''x''" "map StructuredLine [[CHR 0x0C, CHR ''b''], [CHR 0x0B, CHR ''b'']]" 4]
      two_tier_resolution[of "''b''" "''x''" "map StructuredLine [''a'', ''c'']" 5]
    unfolding Let_def e1 e2 e3 e4 e5 length_map l
    by simp
qed

text \<open>
  C6. The specification says that a hunk whose search block is the empty string always fails as not
  found and never resolves a placement. In the code \<open>re.split\<close> turns the empty block into
  the list holding one empty line, so the guard of \<open>locate_hunk\<close> for an empty list of search
  lines is not reached, and the block matches every line whose content is empty. On the empty
  buffer it is placed at line 0 and replaced; on the buffer \<open>"foo\n"\<close> it is placed at the
  empty last line.
\<close>

theorem empty_search_block_matches_blank_line:
  "re_split_newline [] = [[]]
   \<and> locate_hunk (map StructuredLine (split_lines_preserve [] (detect_newline [])))
         (map StructuredLine (re_split_newline [])) False = [0]
   \<and> apply_patch_text [] (Some [\<lparr>search_block = Some (JStr []), replace_block = Some (JStr ''x'')\<rparr>])
       = Inr ''x''
   \<and> apply_patch_text ''foo\<newline>'' (Some [\<lparr>search_block = Some (JStr []), replace_block = Some (JStr ''bar'')\<rparr>])
       = Inr ''foo\<newline>bar''
   \<and> locate_hunk (map StructuredLine (split_lines_preserve [] (detect_newline []))) [] False = []"
  by code_simp

section \<open>Properties of the overlap validator\<close>

lemma disjoint_ranges_sym: "disjoint_ranges a b \<longleftrightarrow> disjoint_ranges b a"
  by (auto simp: disjoint_ranges_def)

lemma sorted_wrt_insort_key_sym:
  assumes "\<And>x y. P x y \<longleftrightarrow> P y x"
  shows "sorted_wrt P (insort_key f x xs) \<longleftrightarrow> (\<forall>y \<in> set xs. P x y) \<and> sorted_wrt P xs"
proof (induction xs)
  case Nil
  then show ?case by simp
next
  case (Cons y ys)
  then show ?case using assms by (auto simp: set_insort_key)
qed

lemma sorted_wrt_sort_key_sym:
  assumes "\<And>x y. P x y \<longleftrightarrow> P y x"
  shows "sorted_wrt P (sort_key f xs) \<longleftrightarrow> sorted_wrt P xs"
proof (induction xs)
  case Nil
  then show ?case by simp
next
  case (Cons x xs)
  have "sort_key f (x # xs) = insort_key f x (sort_key f xs)"
    by (simp add: sort_key_def)
  then show ?case
    using Cons sorted_wrt_insort_key_sym[of P f x "sort_key f xs", OF assms] by simp
qed

lemma sorted_wrt_rev_sym:
  assumes "\<And>x y. P x y \<longleftrightarrow> P y x"
  shows "sorted_wrt P (rev xs) \<longleftrightarrow> sorted_wrt P xs"
proof -
  have "(\<lambda>x y. P y x) = P" using assms by (intro ext) simp
  then show ?thesis by (simp add: sorted_wrt_rev)
qed

lemma adjacent_check_iff:
  assumes "sorted (map start xs)"
  shows "\<not> list_ex (\<lambda>(prev, cur). end_idx prev > start cur) (zip xs (drop 1 xs))
         \<longleftrightarrow> sorted_wrt (\<lambda>a b. end_idx a \<le> start b) xs"
  using assms
proof (induction xs rule: induct_list012)
  case 1
  then show ?case by simp
next
  case (2 x)
  then show ?case by simp
next
  case (3 a b zs)
  have s: "sorted (map start (b # zs))" using 3(3) by simp
  have le: "\<forall>y \<in> set zs. start b \<le> start y" using 3(3) by auto
  have "end_idx a \<le> start b \<Longrightarrow> \<forall>y \<in> set zs. end_idx a \<le> start y"
    using le by fastforce
  then show ?case using 3(2)[OF s] by (auto simp: not_less)
qed

lemma chain_iff_disjoint:
  assumes "sorted (map start xs)" and "\<forall>a \<in> set xs. start a < end_idx a"
  shows "sorted_wrt (\<lambda>a b. end_idx a \<le> start b) xs \<longleftrightarrow> sorted_wrt disjoint_ranges xs"
proof
  assume "sorted_wrt (\<lambda>a b. end_idx a \<le> start b) xs"
  then show "sorted_wrt disjoint_ranges xs"
    by (rule sorted_wrt_mono_rel[rotated]) (simp add: disjoint_ranges_def)
next
  assume d: "sorted_wrt disjoint_ranges xs"
  show "sorted_wrt (\<lambda>a b. end_idx a \<le> start b) xs"
    unfolding sorted_wrt_iff_nth_less
  proof (intro allI impI)
    fix i j assume ij: "i < j" "j < length xs"
    then have "disjoint_ranges (xs ! i) (xs ! j)"
      using d by (simp add: sorted_wrt_iff_nth_less)
    moreover have "start (xs ! i) \<le> start (xs ! j)"
      using assms(1) ij by (simp add: sorted_iff_nth_mono)
    moreover have "start (xs ! j) < end_idx (xs ! j)"
      using assms(2) ij by simp
    ultimately show "end_idx (xs ! i) \<le> start (xs ! j)"
      by (auto simp: disjoint_ranges_def)
  qed
qed

lemma check_overlaps_iff_not_disjoint:
  assumes "\<forall>a \<in> set apps. start a < end_idx a"
  shows "check_overlaps apps \<longleftrightarrow> \<not> sorted_wrt disjoint_ranges apps"
proof (cases "apps = []")
  case True
  then show ?thesis by (simp add: check_overlaps_def)
next
  case False
  let ?s = "sort_key start apps"
  have srt: "sorted (map start ?s)" by simp
  have pos: "\<forall>a \<in> set ?s. start a < end_idx a" using assms by simp
  have "check_overlaps apps \<longleftrightarrow> list_ex (\<lambda>(prev, cur). end_idx prev > start cur) (zip ?s (drop 1 ?s))"
    using False by (simp add: check_overlaps_def Let_def)
  also have "\<dots> \<longleftrightarrow> \<not> sorted_wrt (\<lambda>a b. end_idx a \<le> start b) ?s"
    using adjacent_check_iff[OF srt] by blast
  also have "\<dots> \<longleftrightarrow> \<not> sorted_wrt disjoint_ranges ?s"
    using chain_iff_disjoint[OF srt pos] by simp
  also have "\<dots> \<longleftrightarrow> \<not> sorted_wrt disjoint_ranges apps"
    using sorted_wrt_sort_key_sym[of disjoint_ranges start apps] disjoint_ranges_sym by blast
  finally show ?thesis .
qed

lemma disjoint_ranges_iff_no_common_index:
  assumes "start a < end_idx a" and "start b < end_idx b"
  shows "disjoint_ranges a b \<longleftrightarrow> \<not> (\<exists>n. start a \<le> n \<and> n < end_idx a \<and> start b \<le> n \<and> n < end_idx b)"
proof
  assume "disjoint_ranges a b"
  then show "\<not> (\<exists>n. start a \<le> n \<and> n < end_idx a \<and> start b \<le> n \<and> n < end_idx b)"
    by (auto simp: disjoint_ranges_def)
next
  assume n: "\<not> (\<exists>n. start a \<le> n \<and> n < end_idx a \<and> start b \<le> n \<and> n < end_idx b)"
  show "disjoint_ranges a b"
  proof (rule ccontr)
    assume "\<not> disjoint_ranges a b"
    then have "start b < end_idx a" "start a < end_idx b"
      by (auto simp: disjoint_ranges_def)
    then have "start a \<le> max (start a) (start b) \<and> max (start a) (start b) < end_idx a
        \<and> start b \<le> max (start a) (start b) \<and> max (start a) (start b) < end_idx b"
      using assms by auto
    with n show False by blast
  qed
qed

text \<open>
  C5. For placements with \<open>start < end\<close>, the check (sort by \<open>start\<close>, compare each
  neighbour pair) reports an overlap exactly when two placements at different positions of
  the list share a line index. A list of at most one placement passes.
\<close>

theorem check_overlaps_correct:
  "(\<forall>a \<in> set apps. start a < end_idx a) \<longrightarrow>
     (check_overlaps apps \<longleftrightarrow>
        (\<exists>i j. i < j \<and> j < length apps \<and>
           (\<exists>n. start (apps ! i) \<le> n \<and> n < end_idx (apps ! i)
              \<and> start (apps ! j) \<le> n \<and> n < end_idx (apps ! j))))
     \<and> (length apps \<le> 1 \<longrightarrow> \<not> check_overlaps apps)"
proof (intro impI)
  assume pos: "\<forall>a \<in> set apps. start a < end_idx a"
  have "check_overlaps apps \<longleftrightarrow> (\<exists>i j. i < j \<and> j < length apps \<and> \<not> disjoint_ranges (apps ! i) (apps ! j))"
    using check_overlaps_iff_not_disjoint[OF pos] by (auto simp: sorted_wrt_iff_nth_less)
  also have "\<dots> \<longleftrightarrow> (\<exists>i j. i < j \<and> j < length apps \<and>
           (\<exists>n. start (apps ! i) \<le> n \<and> n < end_idx (apps ! i)
              \<and> start (apps ! j) \<le> n \<and> n < end_idx (apps ! j)))"
  proof -
    have "\<not> disjoint_ranges (apps ! i) (apps ! j) \<longleftrightarrow>
           (\<exists>n. start (apps ! i) \<le> n \<and> n < end_idx (apps ! i)
              \<and> start (apps ! j) \<le> n \<and> n < end_idx (apps ! j))"
      if "i < j" "j < length apps" for i j
    proof -
      have a: "start (apps ! i) < end_idx (apps ! i)" and b: "start (apps ! j) < end_idx (apps ! j)"
        using pos that by simp_all
      from disjoint_ranges_iff_no_common_index[OF a b] show ?thesis by blast
    qed
    then show ?thesis by blast
  qed
  finally have main: "check_overlaps apps \<longleftrightarrow>
        (\<exists>i j. i < j \<and> j < length apps \<and>
           (\<exists>n. start (apps ! i) \<le> n \<and> n < end_idx (apps ! i)
              \<and> start (apps ! j) \<le> n \<and> n < end_idx (apps ! j)))" .
  have "\<not> check_overlaps apps" if "length apps \<le> 1"
  proof -
    have "\<not> (\<exists>i j. i < j \<and> j < length apps)" using that by auto
    with main show ?thesis by blast
  qed
  with main show "(check_overlaps apps \<longleftrightarrow>
        (\<exists>i j. i < j \<and> j < length apps \<and>
           (\<exists>n. start (apps ! i) \<le> n \<and> n < end_idx (apps ! i)
              \<and> start (apps ! j) \<le> n \<and> n < end_idx (apps ! j))))
     \<and> (length apps \<le> 1 \<longrightarrow> \<not> check_overlaps apps)" by blast
qed

theorem check_overlaps_correct_witness:
  "check_overlaps [\<lparr>start = 0, end_idx = 2, replace_lines = []\<rparr>,
                   \<lparr>start = 5, end_idx = 6, replace_lines = []\<rparr>,
                   \<lparr>start = 1, end_idx = 3, replace_lines = []\<rparr>]
   \<and> \<not> check_overlaps [\<lparr>start = 3, end_idx = 4, replace_lines = []\<rparr>]"
proof -
  let ?L = "[\<lparr>start = 0, end_idx = 2, replace_lines = []\<rparr>,
             \<lparr>start = 5, end_idx = 6, replace_lines = []\<rparr>,
             \<lparr>start = 1, end_idx = 3, replace_lines = []\<rparr>]"
  let ?M = "[\<lparr>start = 3, end_idx = 4, replace_lines = []\<rparr>]"
  have pos: "\<forall>a \<in> set ?L. start a < end_idx a" by simp
  have "0 < (2::nat) \<and> 2 < length ?L \<and>
          (start (?L ! 0) \<le> 1 \<and> 1 < end_idx (?L ! 0) \<and> start (?L ! 2) \<le> 1 \<and> 1 < end_idx (?L ! 2))"
    by simp
  then have ex: "\<exists>i j. i < j \<and> j < length ?L \<and>
           (\<exists>n. start (?L ! i) \<le> n \<and> n < end_idx (?L ! i)
              \<and> start (?L ! j) \<le> n \<and> n < end_idx (?L ! j))"
    by blast
  have a: "check_overlaps ?L"
    using check_overlaps_correct[of ?L] pos ex by blast
  have posM: "\<forall>a \<in> set ?M. start a < end_idx a" and lenM: "length ?M \<le> 1" by simp_all
  have b: "\<not> check_overlaps ?M"
    using check_overlaps_correct[of ?M] posM lenM by blast
  from a b show ?thesis by blast
qed

section \<open>Properties of the applier\<close>

lemma replace_loop_in_range:
  assumes "en \<le> length fl"
  shows "\<exists>fl'. replace_loop st en ind i rls new_l fl =
           (None,
            new_l @ map (\<lambda>(j, rl). if st + j < en then (fl ! (st + j))\<lparr>content := content rl\<rparr>
                                     else rl\<lparr>indent := ind\<rparr>) (enumerate i rls),
            fl')
         \<and> length fl' = length fl \<and> (\<forall>n. n < st + i \<or> en \<le> n \<longrightarrow> fl' ! n = fl ! n)"
  using assms
proof (induction rls arbitrary: i new_l fl)
  case Nil
  then show ?case by simp
next
  case (Cons rl rls)
  let ?f = "\<lambda>fl (j, rl). if st + j < en then (fl ! (st + j))\<lparr>content := content rl\<rparr>
                                     else rl\<lparr>indent := ind\<rparr>"
  show ?case
  proof (cases "st + i < en")
    case True
    let ?orig = "(fl ! (st + i))\<lparr>content := content rl\<rparr>"
    let ?fl2 = "fl[st + i := ?orig]"
    have len2: "en \<le> length ?fl2" using Cons.prems by simp
    from Cons.IH[OF len2, of "Suc i" "new_l @ [?orig]"]
    obtain fl' where r: "replace_loop st en ind (Suc i) rls (new_l @ [?orig]) ?fl2 =
           (None, (new_l @ [?orig]) @ map (?f ?fl2) (enumerate (Suc i) rls), fl')"
      and l: "length fl' = length ?fl2"
      and n: "\<forall>n. n < st + Suc i \<or> en \<le> n \<longrightarrow> fl' ! n = ?fl2 ! n"
      by blast
    have m: "map (?f ?fl2) (enumerate (Suc i) rls) = map (?f fl) (enumerate (Suc i) rls)"
      by (rule map_cong) (auto simp: in_set_enumerate_eq)
    have n': "\<forall>n. n < st + i \<or> en \<le> n \<longrightarrow> fl' ! n = fl ! n"
      using n True by auto
    have "replace_loop st en ind i (rl # rls) new_l fl =
            replace_loop st en ind (Suc i) rls (new_l @ [?orig]) ?fl2"
      using True Cons.prems by (simp add: Let_def)
    with r m l n' show ?thesis using True by simp
  next
    case False
    from Cons.IH[OF Cons.prems, of "Suc i" "new_l @ [rl\<lparr>indent := ind\<rparr>]"]
    obtain fl' where r: "replace_loop st en ind (Suc i) rls (new_l @ [rl\<lparr>indent := ind\<rparr>]) fl =
           (None, (new_l @ [rl\<lparr>indent := ind\<rparr>]) @ map (?f fl) (enumerate (Suc i) rls), fl')"
      and l: "length fl' = length fl"
      and n: "\<forall>n. n < st + Suc i \<or> en \<le> n \<longrightarrow> fl' ! n = fl ! n"
      by blast
    have "replace_loop st en ind i (rl # rls) new_l fl =
            replace_loop st en ind (Suc i) rls (new_l @ [rl\<lparr>indent := ind\<rparr>]) fl"
      using False by simp
    with r l n show ?thesis using False by simp
  qed
qed

lemma apply_one_in_range:
  assumes "end_idx app \<le> length fl"
  shows "apply_one app fl =
           (None, take (start app) fl @ spliced_lines app fl @ drop (end_idx app) fl)"
proof -
  let ?ind = "if start app < length fl then indent (fl ! start app) else []"
  from replace_loop_in_range[OF assms, of "start app" ?ind 0 "replace_lines app" "[]"]
  obtain fl' where r: "replace_loop (start app) (end_idx app) ?ind 0 (replace_lines app) [] fl =
           (None, spliced_lines app fl, fl')"
    and l: "length fl' = length fl"
    and n: "\<forall>n. n < start app \<or> end_idx app \<le> n \<longrightarrow> fl' ! n = fl ! n"
    unfolding spliced_lines_def by auto
  have t: "take (start app) fl' = take (start app) fl"
    using l n by (auto simp: list_eq_iff_nth_eq)
  have d: "drop (end_idx app) fl' = drop (end_idx app) fl"
    using l n by (intro nth_equalityI) auto
  show ?thesis
    unfolding apply_one_def Let_def r using t d by simp
qed

lemma length_spliced_lines: "length (spliced_lines app fl) = length (replace_lines app)"
  by (simp add: spliced_lines_def)

lemma nth_spliced_lines:
  assumes "i < length (replace_lines app)"
  shows "spliced_lines app fl ! i =
           (if start app + i < end_idx app
            then (fl ! (start app + i))\<lparr>content := content (replace_lines app ! i)\<rparr>
            else (replace_lines app ! i)\<lparr>indent := (if start app < length fl then indent (fl ! start app) else [])\<rparr>)"
  using assms by (simp add: spliced_lines_def nth_enumerate_eq)

section \<open>The applier's loop on placements in descending order\<close>

lemma every_round_chain:
  assumes "\<forall>a \<in> set apps. start a < end_idx a \<and> end_idx a \<le> length fl
             \<and> take (end_idx a) fl = take (end_idx a) fl0"
    and "sorted_wrt (\<lambda>a b. end_idx b \<le> start a) apps"
  shows "every_round (\<lambda>a cur. start a < length cur \<and> end_idx a \<le> length cur
                          \<and> take (end_idx a) cur = take (end_idx a) fl0) apps fl"
  using assms
proof (induction apps arbitrary: fl)
  case Nil
  then show ?case by simp
next
  case (Cons a apps)
  let ?fl' = "take (start a) fl @ spliced_lines a fl @ drop (end_idx a) fl"
  have a: "start a < end_idx a" "end_idx a \<le> length fl" "take (end_idx a) fl = take (end_idx a) fl0"
    using Cons.prems(1) by simp_all
  have one: "apply_one a fl = (None, ?fl')"
    using a(2) by (rule apply_one_in_range)
  have "\<forall>b \<in> set apps. start b < end_idx b \<and> end_idx b \<le> length ?fl'
             \<and> take (end_idx b) ?fl' = take (end_idx b) fl0"
  proof
    fix b assume b: "b \<in> set apps"
    then have le: "end_idx b \<le> start a" using Cons.prems(2) by simp
    have pb: "start b < end_idx b" "take (end_idx b) fl = take (end_idx b) fl0"
      using Cons.prems(1) b by simp_all
    have sa: "start a \<le> length fl" using a by simp
    have "take (end_idx b) ?fl' = take (end_idx b) (take (start a) fl)"
      using le sa by simp
    also have "\<dots> = take (end_idx b) fl" using le by (simp add: min_def)
    finally have "take (end_idx b) ?fl' = take (end_idx b) fl0" using pb(2) by simp
    moreover have "end_idx b \<le> length ?fl'" using le sa by simp
    ultimately show "start b < end_idx b \<and> end_idx b \<le> length ?fl'
             \<and> take (end_idx b) ?fl' = take (end_idx b) fl0"
      using pb(1) by simp
  qed
  moreover have "sorted_wrt (\<lambda>a b. end_idx b \<le> start a) apps"
    using Cons.prems(2) by simp
  ultimately have "every_round (\<lambda>a cur. start a < length cur \<and> end_idx a \<le> length cur
                          \<and> take (end_idx a) cur = take (end_idx a) fl0) apps ?fl'"
    by (rule Cons.IH)
  then show ?case using a one by simp
qed

lemma every_round_mono:
  assumes "every_round P apps fl" and "\<And>a cur. P a cur \<Longrightarrow> Q a cur"
  shows "every_round Q apps fl"
  using assms(1)
proof (induction apps arbitrary: fl)
  case Nil
  then show ?case by simp
next
  case (Cons a apps)
  then show ?case using assms(2) by (auto split: prod.splits option.splits)
qed

lemma every_round_no_error:
  "every_round P apps fl \<Longrightarrow> fst (apply_loop apps fl) = None"
proof (induction apps arbitrary: fl)
  case Nil
  then show ?case by simp
next
  case (Cons a apps)
  then show ?case by (auto split: prod.splits option.splits)
qed

lemma sorted_reverse_chain:
  assumes "\<forall>a \<in> set apps. start a < end_idx a" and "sorted_wrt disjoint_ranges apps"
  shows "sorted_wrt (\<lambda>a b. end_idx b \<le> start a) (sorted_reverse apps)"
proof -
  let ?s = "sort_key start (rev apps)"
  have srt: "sorted (map start ?s)" by simp
  have pos: "\<forall>a \<in> set ?s. start a < end_idx a" using assms(1) by simp
  have "sorted_wrt disjoint_ranges (rev apps)"
    using assms(2) sorted_wrt_rev_sym[of disjoint_ranges apps] disjoint_ranges_sym by blast
  then have "sorted_wrt disjoint_ranges ?s"
    using sorted_wrt_sort_key_sym[of disjoint_ranges start "rev apps"] disjoint_ranges_sym by blast
  then have "sorted_wrt (\<lambda>a b. end_idx a \<le> start b) ?s"
    using chain_iff_disjoint[OF srt pos] by simp
  then show ?thesis
    by (simp add: sorted_reverse_def sorted_wrt_rev)
qed

lemma set_sorted_reverse [simp]: "set (sorted_reverse apps) = set apps"
  by (simp add: sorted_reverse_def)

lemma every_round_sorted_reverse:
  assumes "\<forall>a \<in> set apps. start a < end_idx a \<and> end_idx a \<le> length fl"
    and "sorted_wrt disjoint_ranges apps"
  shows "every_round (\<lambda>a cur. start a < length cur \<and> end_idx a \<le> length cur
                          \<and> take (end_idx a) cur = take (end_idx a) fl) (sorted_reverse apps) fl"
proof (rule every_round_chain)
  show "\<forall>a \<in> set (sorted_reverse apps). start a < end_idx a \<and> end_idx a \<le> length fl
             \<and> take (end_idx a) fl = take (end_idx a) fl"
    using assms(1) by simp
  show "sorted_wrt (\<lambda>a b. end_idx b \<le> start a) (sorted_reverse apps)"
    using assms by (intro sorted_reverse_chain) auto
qed

text \<open>
  C10. For placements that pairwise do not overlap, each with \<open>start < end\<close> and
  \<open>end \<le> len(file_lines)\<close> on the buffer they were resolved against, the applier's loop in
  descending order of \<open>start\<close> reads the list in range only: when a round begins, \<open>start\<close> is
  below the current length (the inherited indent is read from the list, the empty-string
  branch is not taken), every index \<open>start + i\<close> below \<open>end\<close> is below the current length,
  and no round raises \<open>IndexError\<close>.
\<close>

theorem applier_reads_in_range:
  "(\<forall>a \<in> set apps. start a < end_idx a \<and> end_idx a \<le> length file_lines)
   \<and> (\<forall>i j. i < j \<and> j < length apps \<longrightarrow> disjoint_ranges (apps ! i) (apps ! j))
   \<longrightarrow>
     every_round (\<lambda>a cur. start a < length cur \<and> (\<forall>i. start a + i < end_idx a \<longrightarrow> start a + i < length cur))
       (sorted_reverse apps) file_lines
     \<and> fst (apply_loop (sorted_reverse apps) file_lines) = None"
proof (intro impI)
  assume h: "(\<forall>a \<in> set apps. start a < end_idx a \<and> end_idx a \<le> length file_lines)
   \<and> (\<forall>i j. i < j \<and> j < length apps \<longrightarrow> disjoint_ranges (apps ! i) (apps ! j))"
  then have d: "sorted_wrt disjoint_ranges apps"
    by (simp add: sorted_wrt_iff_nth_less)
  from h have p: "\<forall>a \<in> set apps. start a < end_idx a \<and> end_idx a \<le> length file_lines"
    by blast
  have e: "every_round (\<lambda>a cur. start a < length cur \<and> end_idx a \<le> length cur
                          \<and> take (end_idx a) cur = take (end_idx a) file_lines)
             (sorted_reverse apps) file_lines"
    using p d by (rule every_round_sorted_reverse)
  have "every_round (\<lambda>a cur. start a < length cur \<and> (\<forall>i. start a + i < end_idx a \<longrightarrow> start a + i < length cur))
       (sorted_reverse apps) file_lines"
    by (rule every_round_mono[OF e]) auto
  moreover have "fst (apply_loop (sorted_reverse apps) file_lines) = None"
    using e by (rule every_round_no_error)
  ultimately show "every_round (\<lambda>a cur. start a < length cur \<and> (\<forall>i. start a + i < end_idx a \<longrightarrow> start a + i < length cur))
       (sorted_reverse apps) file_lines
     \<and> fst (apply_loop (sorted_reverse apps) file_lines) = None"
    by blast
qed

theorem applier_reads_in_range_witness:
  "every_round (\<lambda>a cur. start a < length cur \<and> (\<forall>i. start a + i < end_idx a \<longrightarrow> start a + i < length cur))
     (sorted_reverse
        [\<lparr>start = 0, end_idx = 1, replace_lines = map StructuredLine [''x'', ''y'', ''z'']\<rparr>,
         \<lparr>start = 2, end_idx = 3, replace_lines = []\<rparr>])
     (map StructuredLine [''a'', ''b'', ''c''])
   \<and> fst (apply_loop
        (sorted_reverse
          [\<lparr>start = 0, end_idx = 1, replace_lines = map StructuredLine [''x'', ''y'', ''z'']\<rparr>,
           \<lparr>start = 2, end_idx = 3, replace_lines = []\<rparr>])
        (map StructuredLine [''a'', ''b'', ''c''])) = None"
proof -
  let ?L = "[\<lparr>start = 0, end_idx = 1, replace_lines = map StructuredLine [''x'', ''y'', ''z'']\<rparr>,
             \<lparr>start = 2, end_idx = 3, replace_lines = []\<rparr>]"
  let ?F = "map StructuredLine [''a'', ''b'', ''c'']"
  have p: "\<forall>a \<in> set ?L. start a < end_idx a \<and> end_idx a \<le> length ?F" by simp
  have d: "\<forall>i j. i < j \<and> j < length ?L \<longrightarrow> disjoint_ranges (?L ! i) (?L ! j)"
    by (auto simp: disjoint_ranges_def less_Suc_eq)
  from applier_reads_in_range[of ?L ?F] p d show ?thesis by blast
qed

section \<open>Properties of the loop over the hunks\<close>

lemma resolve_hunk_range:
  assumes "resolve_hunk fl num h = Inr (a, msg)"
  shows "start a < end_idx a \<and> end_idx a \<le> length fl"
proof -
  from assms obtain s_blk r_blk where
    sb: "search_block h = Some (JStr s_blk)" and rb: "replace_block h = Some (JStr r_blk)"
    by (auto simp: resolve_hunk_def split: option.splits jvalue.splits)
  let ?sl = "map StructuredLine (re_split_newline s_blk)"
  have "\<exists>floating. locate_hunk fl ?sl floating \<noteq> []
           \<and> start a = locate_hunk fl ?sl floating ! 0
           \<and> end_idx a = locate_hunk fl ?sl floating ! 0 + length ?sl"
  proof (cases "length (locate_hunk fl ?sl False) = 1")
    case True
    with assms sb rb have "a = \<lparr>start = locate_hunk fl ?sl False ! 0,
        end_idx = locate_hunk fl ?sl False ! 0 + length ?sl,
        replace_lines = map StructuredLine (re_split_newline r_blk)\<rparr>"
      by (simp add: resolve_hunk_def Let_def)
    with True show ?thesis by (intro exI[of _ False]) auto
  next
    case False
    with assms sb rb have "locate_hunk fl ?sl True \<noteq> [] \<and> a = \<lparr>start = locate_hunk fl ?sl True ! 0,
        end_idx = locate_hunk fl ?sl True ! 0 + length ?sl,
        replace_lines = map StructuredLine (re_split_newline r_blk)\<rparr>"
      by (auto simp: resolve_hunk_def Let_def split: if_splits)
    then show ?thesis by (intro exI[of _ True]) auto
  qed
  then obtain floating where
    m: "locate_hunk fl ?sl floating \<noteq> []"
    and st: "start a = locate_hunk fl ?sl floating ! 0"
    and en: "end_idx a = locate_hunk fl ?sl floating ! 0 + length ?sl"
    by blast
  from m have "locate_hunk fl ?sl floating ! 0 \<in> set (locate_hunk fl ?sl floating)"
    by simp
  then have "?sl \<noteq> []" and "locate_hunk fl ?sl floating ! 0 + length ?sl \<le> length fl"
    unfolding locate_hunk_iff by blast+
  with st en show ?thesis by simp
qed

lemma resolve_hunk_not_IndexError: "resolve_hunk fl num h \<noteq> Inl IndexError"
  by (auto simp: resolve_hunk_def Let_def split: option.splits jvalue.splits)

lemma hunk_loop_Inr:
  assumes "hunk_loop fl idx hs apps0 log0 = (Inr apps, lg)"
  shows "\<exists>new. apps = apps0 @ new \<and> length new = length hs
           \<and> (\<forall>k < length hs. \<exists>msg. resolve_hunk fl (idx + k + 1) (hs ! k) = Inr (new ! k, msg))"
  using assms
proof (induction hs arbitrary: idx apps0 log0)
  case Nil
  then show ?case by simp
next
  case (Cons h hs)
  from Cons.prems obtain a msg where
    r: "resolve_hunk fl (idx + 1) h = Inr (a, msg)"
    and l: "hunk_loop fl (idx + 1) hs (apps0 @ [a]) (log0 @ [msg]) = (Inr apps, lg)"
    by (auto split: sum.splits prod.splits)
  from Cons.IH[OF l] obtain new where
    n: "apps = (apps0 @ [a]) @ new" "length new = length hs"
       "\<forall>k < length hs. \<exists>msg. resolve_hunk fl (idx + 1 + k + 1) (hs ! k) = Inr (new ! k, msg)"
    by blast
  have "\<exists>msg. resolve_hunk fl (idx + k + 1) ((h # hs) ! k) = Inr ((a # new) ! k, msg)"
    if "k < length (h # hs)" for k
  proof (cases k)
    case 0
    with r show ?thesis by simp
  next
    case (Suc k')
    with that n(3) show ?thesis by simp
  qed
  with n(1,2) show ?case by (intro exI[of _ "a # new"]) simp
qed


lemma hunk_loop_Inl:
  assumes "hunk_loop fl idx hs apps0 log0 = (Inl e, lg)"
  shows "\<exists>k < length hs. resolve_hunk fl (idx + k + 1) (hs ! k) = Inl e
           \<and> (\<forall>j < k. \<exists>a msg. resolve_hunk fl (idx + j + 1) (hs ! j) = Inr (a, msg))"
  using assms
proof (induction hs arbitrary: idx apps0 log0)
  case Nil
  then show ?case by simp
next
  case (Cons h hs)
  show ?case
  proof (cases "resolve_hunk fl (idx + 1) h")
    case (Inl e')
    with Cons.prems have "e' = e" by simp
    with Inl show ?thesis by (intro exI[of _ 0]) simp
  next
    case (Inr p)
    obtain a msg where p: "p = (a, msg)" by (cases p)
    with Inr Cons.prems have "hunk_loop fl (idx + 1) hs (apps0 @ [a]) (log0 @ [msg]) = (Inl e, lg)"
      by simp
    from Cons.IH[OF this] obtain k where
      k: "k < length hs" "resolve_hunk fl (idx + 1 + k + 1) (hs ! k) = Inl e"
         "\<forall>j < k. \<exists>a msg. resolve_hunk fl (idx + 1 + j + 1) (hs ! j) = Inr (a, msg)"
      by blast
    have "\<exists>a msg. resolve_hunk fl (idx + j + 1) ((h # hs) ! j) = Inr (a, msg)" if "j < Suc k" for j
    proof (cases j)
      case 0
      with Inr p show ?thesis by simp
    next
      case (Suc j')
      with that k(3) show ?thesis by simp
    qed
    with k(1,2) show ?thesis by (intro exI[of _ "Suc k"]) simp
  qed
qed

lemma hunk_loop_applications_in_range:
  assumes "hunk_loop fl 0 hs [] [] = (Inr apps, lg)"
  shows "\<forall>a \<in> set apps. start a < end_idx a \<and> end_idx a \<le> length fl"
proof
  fix a assume "a \<in> set apps"
  then obtain k where k: "k < length apps" "a = apps ! k"
    by (auto simp: in_set_conv_nth)
  from hunk_loop_Inr[OF assms] k obtain msg where "resolve_hunk fl (0 + k + 1) (hs ! k) = Inr (a, msg)"
    by auto
  then show "start a < end_idx a \<and> end_idx a \<le> length fl"
    by (rule resolve_hunk_range)
qed

lemma apply_loop_after_location:
  assumes "hunk_loop fl 0 hs [] [] = (Inr apps, lg)" and "\<not> check_overlaps apps"
  shows "fst (apply_loop (sorted_reverse apps) fl) = None"
proof -
  have r: "\<forall>a \<in> set apps. start a < end_idx a \<and> end_idx a \<le> length fl"
    using assms(1) by (rule hunk_loop_applications_in_range)
  then have "\<forall>a \<in> set apps. start a < end_idx a" by blast
  with assms(2) have "sorted_wrt disjoint_ranges apps"
    by (simp add: check_overlaps_iff_not_disjoint)
  with r have "every_round (\<lambda>a cur. start a < length cur \<and> end_idx a \<le> length cur
                          \<and> take (end_idx a) cur = take (end_idx a) fl) (sorted_reverse apps) fl"
    by (rule every_round_sorted_reverse)
  then show ?thesis by (rule every_round_no_error)
qed

section \<open>The whole run\<close>

lemma run_no_hunks:
  "apply_patch_run text None =
     \<lparr>outcome = Inl NoHunksArray,
      final_lines = map StructuredLine (split_lines_preserve text (detect_newline text)),
      logged_msgs = []\<rparr>"
  by (simp add: apply_patch_run_def Let_def)

lemma run_location_failed:
  assumes "hunk_loop (map StructuredLine (split_lines_preserve text (detect_newline text))) 0 hunks [] []
             = (Inl e, lg)"
  shows "apply_patch_run text (Some hunks) =
     \<lparr>outcome = Inl e,
      final_lines = map StructuredLine (split_lines_preserve text (detect_newline text)),
      logged_msgs = lg\<rparr>"
  using assms by (simp add: apply_patch_run_def Let_def)

lemma run_overlap:
  assumes "hunk_loop (map StructuredLine (split_lines_preserve text (detect_newline text))) 0 hunks [] []
             = (Inr apps, lg)"
    and "check_overlaps apps"
  shows "apply_patch_run text (Some hunks) =
     \<lparr>outcome = Inl OverlappingHunks,
      final_lines = map StructuredLine (split_lines_preserve text (detect_newline text)),
      logged_msgs = lg\<rparr>"
  using assms by (simp add: apply_patch_run_def Let_def)

lemma run_applied:
  assumes "hunk_loop (map StructuredLine (split_lines_preserve text (detect_newline text))) 0 hunks [] []
             = (Inr apps, lg)"
    and "\<not> check_overlaps apps"
  shows "\<exists>fl'. apply_loop (sorted_reverse apps)
                 (map StructuredLine (split_lines_preserve text (detect_newline text))) = (None, fl')
     \<and> apply_patch_run text (Some hunks) =
         \<lparr>outcome = Inr (py_join (detect_newline text) (map reconstruct fl')),
          final_lines = fl', logged_msgs = lg\<rparr>"
proof -
  let ?fl = "map StructuredLine (split_lines_preserve text (detect_newline text))"
  have "fst (apply_loop (sorted_reverse apps) ?fl) = None"
    using assms by (rule apply_loop_after_location)
  then obtain fl' where a: "apply_loop (sorted_reverse apps) ?fl = (None, fl')"
    by (cases "apply_loop (sorted_reverse apps) ?fl") auto
  then show ?thesis using assms by (simp add: apply_patch_run_def Let_def)
qed

text \<open>
  C3. Every hunk is resolved against the tokenized original buffer, each on its own, and the
  overlap check comes before the applier's loop. A run that fails (malformed patch, ambiguous,
  not found, overlap) leaves \<open>file_lines\<close> as tokenized from the original text, and no run
  fails with an \<open>IndexError\<close> from inside the applier. A run that returns a text has resolved
  every hunk against the original buffer, passed the overlap check and applied all placements.
  A hunk that does not resolve, or an overlap, makes the run fail.
\<close>

theorem located_before_any_mutation:
  "let file_lines = map StructuredLine (split_lines_preserve text (detect_newline text));
       r = apply_patch_run text patch_obj
   in (\<forall>e. outcome r = Inl e \<longrightarrow> final_lines r = file_lines \<and> e \<noteq> IndexError)
    \<and> (\<forall>out. outcome r = Inr out \<longrightarrow>
          (\<exists>hunks apps. patch_obj = Some hunks \<and> length apps = length hunks
             \<and> (\<forall>k < length hunks. \<exists>msg. resolve_hunk file_lines (k + 1) (hunks ! k) = Inr (apps ! k, msg))
             \<and> \<not> check_overlaps apps
             \<and> apply_loop (sorted_reverse apps) file_lines = (None, final_lines r)
             \<and> out = py_join (detect_newline text) (map reconstruct (final_lines r))))
    \<and> (\<forall>hunks. patch_obj = Some hunks
          \<and> (\<exists>k < length hunks. \<exists>e. resolve_hunk file_lines (k + 1) (hunks ! k) = Inl e)
          \<longrightarrow> (\<exists>e. outcome r = Inl e))
    \<and> (\<forall>hunks apps. patch_obj = Some hunks \<and> fst (hunk_loop file_lines 0 hunks [] []) = Inr apps
          \<and> check_overlaps apps
          \<longrightarrow> outcome r = Inl OverlappingHunks)
    \<and> (patch_obj = None \<longrightarrow> outcome r = Inl NoHunksArray)"
proof -
  define fl where "fl = map StructuredLine (split_lines_preserve text (detect_newline text))"
  define r where "r = apply_patch_run text patch_obj"
  have A: "final_lines r = fl \<and> e \<noteq> IndexError" if "outcome r = Inl e" for e
  proof (cases patch_obj)
    case None
    with that show ?thesis unfolding r_def fl_def by (simp add: run_no_hunks)
  next
    case (Some hunks)
    obtain res lg where h: "hunk_loop fl 0 hunks [] [] = (res, lg)"
      by (cases "hunk_loop fl 0 hunks [] []")
    show ?thesis
    proof (cases res)
      case (Inl e')
      from run_location_failed[OF h[unfolded fl_def Inl]] Some
      have rr: "outcome r = Inl e'" "final_lines r = fl" unfolding r_def fl_def by simp_all
      from hunk_loop_Inl[OF h[unfolded Inl]] resolve_hunk_not_IndexError
      have "e' \<noteq> IndexError" by metis
      with rr that show ?thesis by simp
    next
      case (Inr apps)
      show ?thesis
      proof (cases "check_overlaps apps")
        case True
        from run_overlap[OF h[unfolded fl_def Inr] True] Some that show ?thesis
          unfolding r_def fl_def by auto
      next
        case False
        from run_applied[OF h[unfolded fl_def Inr] False] Some that show ?thesis
          unfolding r_def by auto
      qed
    qed
  qed
  have B: "\<exists>hunks apps. patch_obj = Some hunks \<and> length apps = length hunks
             \<and> (\<forall>k < length hunks. \<exists>msg. resolve_hunk fl (k + 1) (hunks ! k) = Inr (apps ! k, msg))
             \<and> \<not> check_overlaps apps
             \<and> apply_loop (sorted_reverse apps) fl = (None, final_lines r)
             \<and> out = py_join (detect_newline text) (map reconstruct (final_lines r))"
    if "outcome r = Inr out" for out
  proof (cases patch_obj)
    case None
    with that show ?thesis unfolding r_def by (simp add: run_no_hunks)
  next
    case (Some hunks)
    obtain res lg where h: "hunk_loop fl 0 hunks [] [] = (res, lg)"
      by (cases "hunk_loop fl 0 hunks [] []")
    show ?thesis
    proof (cases res)
      case (Inl e')
      from run_location_failed[OF h[unfolded fl_def Inl]] Some that show ?thesis
        unfolding r_def by simp
    next
      case (Inr apps)
      show ?thesis
      proof (cases "check_overlaps apps")
        case True
        from run_overlap[OF h[unfolded fl_def Inr] True] Some that show ?thesis
          unfolding r_def by simp
      next
        case False
        from run_applied[OF h[unfolded fl_def Inr] False] obtain fl' where
          a: "apply_loop (sorted_reverse apps) fl = (None, fl')"
          and rr: "apply_patch_run text (Some hunks) =
             \<lparr>outcome = Inr (py_join (detect_newline text) (map reconstruct fl')),
              final_lines = fl', logged_msgs = lg\<rparr>"
          unfolding fl_def by blast
        from hunk_loop_Inr[OF h[unfolded Inr]] have
          l: "length apps = length hunks"
          and k: "\<forall>k < length hunks. \<exists>msg. resolve_hunk fl (k + 1) (hunks ! k) = Inr (apps ! k, msg)"
          by auto
        from rr Some that have "final_lines r = fl'"
          "out = py_join (detect_newline text) (map reconstruct fl')"
          unfolding r_def by simp_all
        with a l k False Some show ?thesis by auto
      qed
    qed
  qed
  have C: "\<exists>e. outcome r = Inl e"
    if "patch_obj = Some hunks" "\<exists>k < length hunks. \<exists>e. resolve_hunk fl (k + 1) (hunks ! k) = Inl e"
    for hunks
  proof (cases "outcome r")
    case (Inl e)
    then show ?thesis by blast
  next
    case (Inr out)
    from B[OF Inr] that(1) obtain apps where
      "\<forall>k < length hunks. \<exists>msg. resolve_hunk fl (k + 1) (hunks ! k) = Inr (apps ! k, msg)"
      by auto
    with that(2) show ?thesis by fastforce
  qed
  have D: "outcome r = Inl OverlappingHunks"
    if p: "patch_obj = Some hunks" and q: "fst (hunk_loop fl 0 hunks [] []) = Inr apps"
      and c: "check_overlaps apps"
    for hunks apps
  proof -
    from q obtain lg where h: "hunk_loop fl 0 hunks [] [] = (Inr apps, lg)"
      by (cases "hunk_loop fl 0 hunks [] []") auto
    from run_overlap[OF h[unfolded fl_def] c] p show ?thesis
      unfolding r_def by simp
  qed
  have E: "patch_obj = None \<longrightarrow> outcome r = Inl NoHunksArray"
    unfolding r_def by (auto simp: run_no_hunks)
  from A B C D E show ?thesis
    unfolding Let_def fl_def[symmetric] r_def[symmetric] by blast
qed

theorem located_before_any_mutation_witness:
  "outcome (apply_patch_run ''a\<newline>b\<newline>c\<newline>d''
      (Some [\<lparr>search_block = Some (JStr ''a\<newline>b''), replace_block = Some (JStr ''X'')\<rparr>,
             \<lparr>search_block = Some (JStr ''b\<newline>c''), replace_block = Some (JStr ''Y'')\<rparr>]))
     = Inl OverlappingHunks
   \<and> final_lines (apply_patch_run ''a\<newline>b\<newline>c\<newline>d''
      (Some [\<lparr>search_block = Some (JStr ''a\<newline>b''), replace_block = Some (JStr ''X'')\<rparr>,
             \<lparr>search_block = Some (JStr ''b\<newline>c''), replace_block = Some (JStr ''Y'')\<rparr>]))
     = map StructuredLine (split_lines_preserve ''a\<newline>b\<newline>c\<newline>d'' (detect_newline ''a\<newline>b\<newline>c\<newline>d''))
   \<and> outcome (apply_patch_run ''a\<newline>b''
      (Some [\<lparr>search_block = Some (JStr ''a''), replace_block = Some (JStr ''X'')\<rparr>]))
     = Inr ''X\<newline>b''
   \<and> (\<exists>apps. length apps = 1 \<and> \<not> check_overlaps apps
        \<and> apply_loop (sorted_reverse apps)
             (map StructuredLine (split_lines_preserve ''a\<newline>b'' (detect_newline ''a\<newline>b'')))
           = (None, final_lines (apply_patch_run ''a\<newline>b''
               (Some [\<lparr>search_block = Some (JStr ''a''), replace_block = Some (JStr ''X'')\<rparr>]))))"
proof -
  let ?T = "''a\<newline>b\<newline>c\<newline>d''"
  let ?P = "Some [\<lparr>search_block = Some (JStr ''a\<newline>b''), replace_block = Some (JStr ''X'')\<rparr>,
             \<lparr>search_block = Some (JStr ''b\<newline>c''), replace_block = Some (JStr ''Y'')\<rparr>]"
  let ?T2 = "''a\<newline>b''"
  let ?P2 = "Some [\<lparr>search_block = Some (JStr ''a''), replace_block = Some (JStr ''X'')\<rparr>]"
  have o: "outcome (apply_patch_run ?T ?P) = Inl OverlappingHunks" by code_simp
  have o2: "outcome (apply_patch_run ?T2 ?P2) = Inr ''X\<newline>b''" by code_simp
  note t1 = located_before_any_mutation[of ?T ?P, unfolded Let_def]
  from t1[THEN conjunct1, rule_format, OF o, THEN conjunct1]
  have f: "final_lines (apply_patch_run ?T ?P)
      = map StructuredLine (split_lines_preserve ?T (detect_newline ?T))" .
  note t2 = located_before_any_mutation[of ?T2 ?P2, unfolded Let_def]
  from t2[THEN conjunct2, THEN conjunct1, rule_format, OF o2]
  obtain hunks apps where h: "?P2 = Some hunks" and l: "length apps = length hunks"
    and c: "\<not> check_overlaps apps"
    and a: "apply_loop (sorted_reverse apps)
       (map StructuredLine (split_lines_preserve ?T2 (detect_newline ?T2)))
      = (None, final_lines (apply_patch_run ?T2 ?P2))"
    by (elim exE conjE)
  from h l have "length apps = 1" by auto
  with c a have e: "\<exists>apps. length apps = 1 \<and> \<not> check_overlaps apps
        \<and> apply_loop (sorted_reverse apps)
             (map StructuredLine (split_lines_preserve ?T2 (detect_newline ?T2)))
           = (None, final_lines (apply_patch_run ?T2 ?P2))"
    by (intro exI[of _ apps] conjI)
  from o f o2 e show ?thesis by (intro conjI)
qed

section \<open>Malformed hunks\<close>








section \<open>Exact and tolerant comparison\<close>

lemma py_isspace_LF: "py_isspace LF"
  by (simp add: py_isspace_def LF_def)

lemma py_strip_id:
  assumes "s = [] \<or> (\<not> py_isspace (hd s) \<and> \<not> py_isspace (last s))"
  shows "py_strip s = s"
proof (cases "s = []")
  case True
  then show ?thesis by (simp add: py_strip_def)
next
  case False
  with assms have h: "\<not> py_isspace (hd s)" and l: "\<not> py_isspace (last s)" by simp_all
  from False h have 1: "dropWhile py_isspace s = s" by (cases s) simp_all
  from False l have 2: "dropWhile py_isspace (rev s) = rev s"
    by (cases "rev s") (simp_all add: last_rev[symmetric] hd_rev)
  show ?thesis by (simp add: py_strip_def 1 2)
qed

lemma set_py_strip: "set (py_strip s) \<subseteq> set s"
proof -
  have "set (dropWhile py_isspace (rev (dropWhile py_isspace s))) \<subseteq> set (rev (dropWhile py_isspace s))"
    by (meson set_dropWhileD subsetI)
  also have "\<dots> \<subseteq> set s" by (auto dest: set_dropWhileD)
  finally show ?thesis by (simp add: py_strip_def)
qed

lemma LF_in_py_strip:
  assumes "LF \<in> set s" and "outer_space_blank s"
  shows "LF \<in> set (py_strip s)"
proof -
  let ?P = py_isspace
  let ?d = "dropWhile ?P s"
  have nb: "\<not> is_blank LF" using blank_not_LF by blast
  have l1: "LF \<notin> set (takeWhile ?P s)" and l2: "LF \<notin> set (takeWhile ?P (rev s))"
    using assms(2) nb by (auto simp: outer_space_blank_def list_all_iff)
  have "set s = set (takeWhile ?P s) \<union> set ?d"
    by (metis set_append takeWhile_dropWhile_id)
  with assms(1) l1 have d: "LF \<in> set ?d" by blast
  then have dn: "?d \<noteq> []" by (cases ?d) simp_all
  then have hd: "\<not> ?P (hd ?d)" by (rule hd_dropWhile)
  have hdin: "hd ?d \<in> set (rev ?d)" using dn by simp
  have "rev s = rev ?d @ rev (takeWhile ?P s)"
    by (metis rev_append takeWhile_dropWhile_id)
  then have "takeWhile ?P (rev s) = takeWhile ?P (rev ?d)"
    using takeWhile_append1[of "hd ?d" "rev ?d" ?P "rev (takeWhile ?P s)", OF hdin hd] by simp
  with l2 have "LF \<notin> set (takeWhile ?P (rev ?d))" by simp
  moreover have "set (rev ?d) = set (takeWhile ?P (rev ?d)) \<union> set (dropWhile ?P (rev ?d))"
    by (metis set_append takeWhile_dropWhile_id)
  ultimately have "LF \<in> set (dropWhile ?P (rev ?d))" using d by auto
  then show ?thesis by (simp add: py_strip_def)
qed

lemma outer_space_blank_hd_last:
  assumes "outer_space_blank k" and "k \<noteq> []" and "\<not> is_blank (hd k)" and "\<not> is_blank (last k)"
  shows "\<not> py_isspace (hd k) \<and> \<not> py_isspace (last k)"
proof (intro conjI notI)
  assume "py_isspace (hd k)"
  with assms(2) have "hd k \<in> set (takeWhile py_isspace k)" by (cases k) simp_all
  with assms(1,3) show False by (auto simp: outer_space_blank_def list_all_iff)
next
  assume "py_isspace (last k)"
  with assms(2) have "last k \<in> set (takeWhile py_isspace (rev k))"
    by (cases "rev k") (simp_all add: last_rev[symmetric] hd_rev)
  with assms(1,4) show False by (auto simp: outer_space_blank_def list_all_iff)
qed

lemma matched_content_strip:
  assumes "re_match_line p = Some (i, k, t)" and "outer_space_blank k"
  shows "py_strip k = k"
proof (cases "k = []")
  case True
  then show ?thesis by (simp add: py_strip_def)
next
  case False
  with re_match_line_content[OF assms(1)] have "\<not> is_blank (hd k)" "\<not> is_blank (last k)"
    by simp_all
  with outer_space_blank_hd_last[OF assms(2) False] show ?thesis
    by (intro py_strip_id) simp
qed

lemma content_LF_free:
  assumes "LF \<notin> set s"
  shows "LF \<notin> set (content (StructuredLine s))"
proof (cases "re_match_line s")
  case None
  with assms show ?thesis by (simp add: StructuredLine_def)
next
  case (Some r)
  obtain i k t where r: "r = (i, k, t)" by (cases r)
  from re_match_line_sound[OF Some[unfolded r]] Some r show ?thesis
    by (simp add: StructuredLine_def)
qed

lemma modes_agree_on_lines:
  assumes "LF \<notin> set s"
    and "outer_space_blank (content (StructuredLine p))"
    and "outer_space_blank (content (StructuredLine s))"
  shows "py_strip (content (StructuredLine p)) = py_strip (content (StructuredLine s))
         \<longleftrightarrow> content (StructuredLine p) = content (StructuredLine s)"
proof -
  let ?cs = "content (StructuredLine s)"
  let ?cp = "content (StructuredLine p)"
  have lf: "LF \<notin> set ?cs" using assms(1) by (rule content_LF_free)
  obtain i k t where ms: "re_match_line s = Some (i, k, t)"
    using re_match_line_total[OF assms(1)] by (cases "re_match_line s") auto
  then have ck: "?cs = k" by (simp add: StructuredLine_def)
  have ss: "py_strip ?cs = ?cs"
    using matched_content_strip[OF ms] assms(3) ck by simp
  show ?thesis
  proof (cases "re_match_line p")
    case (Some r)
    obtain i' k' t' where r: "r = (i', k', t')" by (cases r)
    with Some have cp: "?cp = k'" by (simp add: StructuredLine_def)
    have "py_strip ?cp = ?cp"
      using matched_content_strip[OF Some[unfolded r]] assms(2) cp by simp
    with ss show ?thesis by simp
  next
    case None
    then have cp: "?cp = p" by (simp add: StructuredLine_def)
    have inp: "LF \<in> set p" using None re_match_line_total by blast
    with assms(2) cp have "LF \<in> set (py_strip ?cp)" by (simp add: LF_in_py_strip)
    with lf ss have n1: "py_strip ?cp \<noteq> py_strip ?cs" by metis
    from inp cp lf have n2: "?cp \<noteq> ?cs" by metis
    from n1 n2 show ?thesis by simp
  qed
qed

lemma CR_neq_LF: "CR \<noteq> LF"
  by (simp add: CR_def LF_def)

lemma re_split_newline_LF_free: "\<forall>s \<in> set (re_split_newline blk). LF \<notin> set s"
proof (induction blk rule: re_split_newline.induct)
  case 1
  then show ?case by simp
next
  case (2 c)
  then show ?case by simp
next
  case (3 c d cs)
  have cf: "\<forall>s \<in> set (cons_first c ps). LF \<notin> set s"
    if "c \<noteq> LF" "\<forall>s \<in> set ps. LF \<notin> set s" for ps
    using that by (cases ps) auto
  show ?case
  proof (cases "c = CR \<and> d = LF")
    case True
    then have "re_split_newline (c # d # cs) = [] # re_split_newline cs" by simp
    with 3(1)[OF True] show ?thesis by simp
  next
    case False
    show ?thesis
    proof (cases "c = LF")
      case True
      with False CR_neq_LF have "re_split_newline (c # d # cs) = [] # re_split_newline (d # cs)"
        by auto
      with 3(2)[OF False True] show ?thesis by simp
    next
      case nl: False
      with False have e: "re_split_newline (c # d # cs) = cons_first c (re_split_newline (d # cs))"
        by auto
      from cf[OF nl 3(3)[OF False nl]] show ?thesis unfolding e .
    qed
  qed
qed

lemma locate_hunk_modes_agree:
  assumes "\<forall>s \<in> set ss. LF \<notin> set s"
    and "\<forall>l \<in> set (map StructuredLine ps) \<union> set (map StructuredLine ss). outer_space_blank (content l)"
  shows "locate_hunk (map StructuredLine ps) (map StructuredLine ss) True
       = locate_hunk (map StructuredLine ps) (map StructuredLine ss) False"
proof -
  let ?fl = "map StructuredLine ps" and ?sl = "map StructuredLine ss"
  have agree: "(py_strip (content (?fl ! (st + j))) = py_strip (content (?sl ! j)))
             = (content (?fl ! (st + j)) = content (?sl ! j))"
    if "st + j < length ps" "j < length ss" for st j
  proof -
    have "LF \<notin> set (ss ! j)" using assms(1) that(2) by simp
    moreover have "outer_space_blank (content (StructuredLine (ps ! (st + j))))"
      using assms(2) that(1) by simp
    moreover have "outer_space_blank (content (StructuredLine (ss ! j)))"
      using assms(2) that(2) by simp
    ultimately show ?thesis using that by (simp add: modes_agree_on_lines)
  qed
  show ?thesis
  proof (cases "ss = [] \<or> int (length ps) - int (length ss) < 0")
    case True
    then show ?thesis by (auto simp: locate_hunk_def Let_def)
  next
    case False
    let ?n = "nat (int (length ps) - int (length ss) + 1)"
    have w: "window_ok ?fl True st (enumerate 0 ?sl) = window_ok ?fl False st (enumerate 0 ?sl)"
      if "st \<in> set [0 ..< ?n]" for st
    proof -
      have "st + j < length ps" if "j < length ss" for j
        using that \<open>st \<in> set [0 ..< ?n]\<close> False by auto
      then show ?thesis
        using agree[of st] by (simp add: window_ok_iff)
    qed
    have "filter (\<lambda>st. window_ok ?fl True st (enumerate 0 ?sl)) [0 ..< ?n]
        = filter (\<lambda>st. window_ok ?fl False st (enumerate 0 ?sl)) [0 ..< ?n]"
      by (rule filter_cong[OF refl]) (rule w)
    with False show ?thesis by (simp add: locate_hunk_def Let_def)
  qed
qed

text \<open>
  C9. When the contents of the tokenized buffer lines and search lines carry no leading or
  trailing whitespace other than spaces and tabs, locating in tolerant mode returns the same
  start indices as locating in exact mode. The search lines are tokenized from strings
  without a line feed, as the pieces of \<open>re.split\<close> are; the buffer lines are tokenized from
  any strings. The second part is the instance the engine runs: buffer lines from the
  splitter, search lines from the search block.
\<close>

theorem exact_and_tolerant_coincide:
  "((\<forall>s \<in> set ss. LF \<notin> set s)
     \<and> (\<forall>l \<in> set (map StructuredLine ps) \<union> set (map StructuredLine ss). outer_space_blank (content l))
     \<longrightarrow> locate_hunk (map StructuredLine ps) (map StructuredLine ss) True
         = locate_hunk (map StructuredLine ps) (map StructuredLine ss) False)
   \<and> ((\<forall>l \<in> set (map StructuredLine (split_lines_preserve file_text (detect_newline file_text)))
              \<union> set (map StructuredLine (re_split_newline s_blk)). outer_space_blank (content l))
     \<longrightarrow> locate_hunk (map StructuredLine (split_lines_preserve file_text (detect_newline file_text)))
           (map StructuredLine (re_split_newline s_blk)) True
         = locate_hunk (map StructuredLine (split_lines_preserve file_text (detect_newline file_text)))
           (map StructuredLine (re_split_newline s_blk)) False)"
proof (intro conjI impI)
  assume "(\<forall>s \<in> set ss. LF \<notin> set s)
     \<and> (\<forall>l \<in> set (map StructuredLine ps) \<union> set (map StructuredLine ss). outer_space_blank (content l))"
  then show "locate_hunk (map StructuredLine ps) (map StructuredLine ss) True
         = locate_hunk (map StructuredLine ps) (map StructuredLine ss) False"
    using locate_hunk_modes_agree[of ss ps] by blast
next
  assume "\<forall>l \<in> set (map StructuredLine (split_lines_preserve file_text (detect_newline file_text)))
              \<union> set (map StructuredLine (re_split_newline s_blk)). outer_space_blank (content l)"
  then show "locate_hunk (map StructuredLine (split_lines_preserve file_text (detect_newline file_text)))
           (map StructuredLine (re_split_newline s_blk)) True
         = locate_hunk (map StructuredLine (split_lines_preserve file_text (detect_newline file_text)))
           (map StructuredLine (re_split_newline s_blk)) False"
    using re_split_newline_LF_free[of s_blk]
    by (intro locate_hunk_modes_agree)
qed

theorem exact_and_tolerant_coincide_witness:
  "locate_hunk (map StructuredLine (split_lines_preserve ''x\<newline> y \<newline>z'' (detect_newline ''x\<newline> y \<newline>z'')))
      (map StructuredLine (re_split_newline ''   y'')) True
   = locate_hunk (map StructuredLine (split_lines_preserve ''x\<newline> y \<newline>z'' (detect_newline ''x\<newline> y \<newline>z'')))
      (map StructuredLine (re_split_newline ''   y'')) False
   \<and> locate_hunk (map StructuredLine (split_lines_preserve ''x\<newline> y \<newline>z'' (detect_newline ''x\<newline> y \<newline>z'')))
      (map StructuredLine (re_split_newline ''   y'')) False = [1]"
proof -
  let ?T = "''x\<newline> y \<newline>z''"
  let ?S = "''   y''"
  have h: "\<forall>l \<in> set (map StructuredLine (split_lines_preserve ?T (detect_newline ?T)))
              \<union> set (map StructuredLine (re_split_newline ?S)). outer_space_blank (content l)"
    by code_simp
  have e: "locate_hunk (map StructuredLine (split_lines_preserve ?T (detect_newline ?T)))
      (map StructuredLine (re_split_newline ?S)) False = [1]"
    by code_simp
  from exact_and_tolerant_coincide[of "[]" "[]" ?T ?S, THEN conjunct2, THEN mp, OF h] e
  show ?thesis by (intro conjI)
qed

section \<open>Hunks that replace a block by itself\<close>

lemma roundtrip_tokenized:
  assumes "\<forall>p \<in> set (split_lines_preserve txt nl). \<not> lone_final_LF p"
  shows "py_join nl (map reconstruct (map StructuredLine (split_lines_preserve txt nl))) = txt"
proof -
  have "py_join nl (map (\<lambda>p. reconstruct (StructuredLine p)) (split_lines_preserve txt nl))
      = py_join nl (split_lines_preserve txt nl)"
    using assms by (intro py_join_map_cong) (simp add: reconstruct_StructuredLine)
  then show ?thesis by (simp add: join_split_lines_preserve comp_def)
qed

lemma run_returns_text:
  assumes "apply_patch_text txt patch_obj = Inr out"
  shows "\<exists>hunks apps lg fl'. patch_obj = Some hunks
     \<and> hunk_loop (map StructuredLine (split_lines_preserve txt (detect_newline txt))) 0 hunks [] []
         = (Inr apps, lg)
     \<and> apply_loop (sorted_reverse apps) (map StructuredLine (split_lines_preserve txt (detect_newline txt)))
         = (None, fl')
     \<and> out = py_join (detect_newline txt) (map reconstruct fl')"
proof (cases patch_obj)
  case None
  with assms show ?thesis by (simp add: apply_patch_text_def run_no_hunks)
next
  case (Some hunks)
  let ?fl = "map StructuredLine (split_lines_preserve txt (detect_newline txt))"
  obtain res lg where h: "hunk_loop ?fl 0 hunks [] [] = (res, lg)"
    by (cases "hunk_loop ?fl 0 hunks [] []")
  show ?thesis
  proof (cases res)
    case (Inl e)
    from run_location_failed[OF h[unfolded Inl]] Some assms show ?thesis
      by (simp add: apply_patch_text_def)
  next
    case (Inr apps)
    show ?thesis
    proof (cases "check_overlaps apps")
      case True
      from run_overlap[OF h[unfolded Inr] True] Some assms show ?thesis
        by (simp add: apply_patch_text_def)
    next
      case False
      from run_applied[OF h[unfolded Inr] False] obtain fl' where
        a: "apply_loop (sorted_reverse apps) ?fl = (None, fl')"
        and rr: "apply_patch_run txt (Some hunks) =
           \<lparr>outcome = Inr (py_join (detect_newline txt) (map reconstruct fl')),
            final_lines = fl', logged_msgs = lg\<rparr>"
        by blast
      from rr Some assms have "out = py_join (detect_newline txt) (map reconstruct fl')"
        by (simp add: apply_patch_text_def)
      with a h Inr Some show ?thesis by blast
    qed
  qed
qed

lemma spliced_lines_same_content:
  assumes "end_idx a = start a + length (replace_lines a)" and "end_idx a \<le> length fl"
    and "\<forall>j < length (replace_lines a). content (fl ! (start a + j)) = content (replace_lines a ! j)"
  shows "spliced_lines a fl = take (length (replace_lines a)) (drop (start a) fl)"
proof (rule nth_equalityI)
  show "length (spliced_lines a fl) = length (take (length (replace_lines a)) (drop (start a) fl))"
    using assms(1,2) by (simp add: length_spliced_lines)
next
  fix i assume "i < length (spliced_lines a fl)"
  then have i: "i < length (replace_lines a)" by (simp add: length_spliced_lines)
  then have "spliced_lines a fl ! i = (fl ! (start a + i))\<lparr>content := content (replace_lines a ! i)\<rparr>"
    using assms(1) by (simp add: nth_spliced_lines)
  also have "\<dots> = fl ! (start a + i)"
  proof -
    have "content (replace_lines a ! i) = content (fl ! (start a + i))"
      using assms(3) i by simp
    then show ?thesis by simp
  qed
  finally show "spliced_lines a fl ! i = take (length (replace_lines a)) (drop (start a) fl) ! i"
    using i assms(1,2) by simp
qed

lemma apply_one_same_content:
  assumes "end_idx a = start a + length (replace_lines a)" and "end_idx a \<le> length fl"
    and "\<forall>j < length (replace_lines a). content (fl ! (start a + j)) = content (replace_lines a ! j)"
  shows "apply_one a fl = (None, fl)"
proof -
  have "drop (end_idx a) fl = drop (length (replace_lines a)) (drop (start a) fl)"
    using assms(1) by (simp add: add.commute)
  then have "take (length (replace_lines a)) (drop (start a) fl) @ drop (end_idx a) fl = drop (start a) fl"
    by (simp only: append_take_drop_id)
  then have "take (start a) fl @ take (length (replace_lines a)) (drop (start a) fl) @ drop (end_idx a) fl = fl"
    by (simp only: append_take_drop_id)
  then show ?thesis
    using apply_one_in_range[OF assms(2)] spliced_lines_same_content[OF assms] by simp
qed

lemma apply_loop_same_content:
  assumes "\<forall>a \<in> set apps. end_idx a = start a + length (replace_lines a) \<and> end_idx a \<le> length fl
     \<and> (\<forall>j < length (replace_lines a). content (fl ! (start a + j)) = content (replace_lines a ! j))"
  shows "apply_loop apps fl = (None, fl)"
  using assms
proof (induction apps)
  case Nil
  then show ?case by simp
next
  case (Cons a apps)
  have 1: "apply_one a fl = (None, fl)"
    using Cons.prems by (intro apply_one_same_content) simp_all
  have 2: "apply_loop apps fl = (None, fl)"
  proof (rule Cons.IH, rule ballI)
    fix b assume "b \<in> set apps"
    then have "b \<in> set (a # apps)" by simp
    with Cons.prems show "end_idx b = start b + length (replace_lines b) \<and> end_idx b \<le> length fl
     \<and> (\<forall>j < length (replace_lines b). content (fl ! (start b + j)) = content (replace_lines b ! j))"
      by blast
  qed
  show ?case by (simp add: 1 2)
qed

lemma resolve_hunk_exact_same:
  assumes "resolve_hunk fl num \<lparr>search_block = Some (JStr s), replace_block = Some (JStr s)\<rparr> = Inr (a, msg)"
    and "locate_hunk fl (map StructuredLine (re_split_newline s)) False \<noteq> []"
  shows "end_idx a = start a + length (replace_lines a) \<and> end_idx a \<le> length fl
     \<and> (\<forall>j < length (replace_lines a). content (fl ! (start a + j)) = content (replace_lines a ! j))"
proof -
  let ?sl = "map StructuredLine (re_split_newline s)"
  let ?ex = "locate_hunk fl ?sl False"
  have "\<not> length ?ex > 1"
  proof
    assume "length ?ex > 1"
    then have "resolve_hunk fl num \<lparr>search_block = Some (JStr s), replace_block = Some (JStr s)\<rparr>
        = Inl (AmbiguousStrict num)"
      by (simp add: resolve_hunk_def Let_def)
    with assms(1) show False by simp
  qed
  moreover have "length ?ex \<noteq> 0" using assms(2) by simp
  ultimately have l: "length ?ex = 1" by linarith
  with assms(1) have a: "a = \<lparr>start = ?ex ! 0, end_idx = ?ex ! 0 + length ?sl, replace_lines = ?sl\<rparr>"
    by (simp add: resolve_hunk_def Let_def)
  from assms(2) have "?ex ! 0 \<in> set ?ex" by simp
  then have "?ex ! 0 + length ?sl \<le> length fl"
    and "\<forall>j < length ?sl. content (fl ! (?ex ! 0 + j)) = content (?sl ! j)"
    unfolding locate_hunk_iff by simp_all
  with a show ?thesis by simp
qed

text \<open>
  C8. The specification says that a patch whose hunks all have a replace block equal to the search block
  returns the input text whenever it succeeds. A hunk found only in tolerant mode is enough to
  break it: the search block \<open>"foo\r"\<close> does not match the buffer line \<open>"foo"\<close> exactly, it
  matches after \<open>strip()\<close>, and the line's content is then overwritten with \<open>"foo\r"\<close>.
\<close>

theorem self_replacement_changes_text:
  "apply_patch_text ''foo''
     (Some [\<lparr>search_block = Some (JStr (''foo'' @ [CR])), replace_block = Some (JStr (''foo'' @ [CR]))\<rparr>])
     = Inr (''foo'' @ [CR])
   \<and> ''foo'' @ [CR] \<noteq> ''foo''"
  by code_simp

text \<open>
  C8, amended. When every hunk has a replace block equal to its search block and is located
  in exact mode, and no line of the buffer is a line-feed-free string followed by one line
  feed (the lines that do not reconstruct to themselves, see C4), a run that succeeds returns
  the input text.
\<close>

theorem self_replacement_exact:
  "(\<forall>p \<in> set (split_lines_preserve file_text (detect_newline file_text)). \<not> lone_final_LF p)
   \<and> (\<forall>s \<in> set blocks.
         locate_hunk (map StructuredLine (split_lines_preserve file_text (detect_newline file_text)))
           (map StructuredLine (re_split_newline s)) False \<noteq> [])
   \<and> apply_patch_text file_text
        (Some (map (\<lambda>s. \<lparr>search_block = Some (JStr s), replace_block = Some (JStr s)\<rparr>) blocks))
      = Inr out
   \<longrightarrow> out = file_text"
proof (intro impI)
  let ?fl = "map StructuredLine (split_lines_preserve file_text (detect_newline file_text))"
  let ?hs = "map (\<lambda>s. \<lparr>search_block = Some (JStr s), replace_block = Some (JStr s)\<rparr>) blocks"
  assume h: "(\<forall>p \<in> set (split_lines_preserve file_text (detect_newline file_text)). \<not> lone_final_LF p)
   \<and> (\<forall>s \<in> set blocks. locate_hunk ?fl (map StructuredLine (re_split_newline s)) False \<noteq> [])
   \<and> apply_patch_text file_text (Some ?hs) = Inr out"
  then have rt: "\<forall>p \<in> set (split_lines_preserve file_text (detect_newline file_text)). \<not> lone_final_LF p"
    and ex: "\<forall>s \<in> set blocks. locate_hunk ?fl (map StructuredLine (re_split_newline s)) False \<noteq> []"
    and ok: "apply_patch_text file_text (Some ?hs) = Inr out"
    by blast+
  from run_returns_text[OF ok] obtain apps lg fl' where
    hl: "hunk_loop ?fl 0 ?hs [] [] = (Inr apps, lg)"
    and al: "apply_loop (sorted_reverse apps) ?fl = (None, fl')"
    and out: "out = py_join (detect_newline file_text) (map reconstruct fl')"
    by auto
  from hunk_loop_Inr[OF hl] have len: "length apps = length blocks"
    and res: "\<forall>k < length blocks. \<exists>msg. resolve_hunk ?fl (0 + k + 1) (?hs ! k) = Inr (apps ! k, msg)"
    by auto
  have same: "\<forall>a \<in> set (sorted_reverse apps).
      end_idx a = start a + length (replace_lines a) \<and> end_idx a \<le> length ?fl
     \<and> (\<forall>j < length (replace_lines a). content (?fl ! (start a + j)) = content (replace_lines a ! j))"
  proof
    fix a assume "a \<in> set (sorted_reverse apps)"
    then have "a \<in> set apps" by simp
    then obtain k where k: "k < length apps" "a = apps ! k" by (auto simp: in_set_conv_nth)
    with len res obtain msg where
      r: "resolve_hunk ?fl (0 + k + 1) (?hs ! k) = Inr (a, msg)" by auto
    have hk: "?hs ! k = \<lparr>search_block = Some (JStr (blocks ! k)), replace_block = Some (JStr (blocks ! k))\<rparr>"
      using k(1) len by simp
    have e: "locate_hunk ?fl (map StructuredLine (re_split_newline (blocks ! k))) False \<noteq> []"
      using ex k(1) len by simp
    from resolve_hunk_exact_same[OF r[unfolded hk] e]
    show "end_idx a = start a + length (replace_lines a) \<and> end_idx a \<le> length ?fl
     \<and> (\<forall>j < length (replace_lines a). content (?fl ! (start a + j)) = content (replace_lines a ! j))" .
  qed
  from apply_loop_same_content[OF same] al have "fl' = ?fl" by simp
  with out have "out = py_join (detect_newline file_text) (map reconstruct ?fl)" by simp
  also have "\<dots> = file_text" using rt by (rule roundtrip_tokenized)
  finally show "out = file_text" .
qed

theorem self_replacement_exact_witness:
  "apply_patch_text ''foo\<newline>  bar \<newline>baz''
     (Some (map (\<lambda>s. \<lparr>search_block = Some (JStr s), replace_block = Some (JStr s)\<rparr>)
          [''bar\<newline>baz'', ''foo'']))
   = Inr ''foo\<newline>  bar \<newline>baz''"
proof -
  let ?T = "''foo\<newline>  bar \<newline>baz''"
  let ?B = "[''bar\<newline>baz'', ''foo'']"
  let ?r = "apply_patch_text ?T
     (Some (map (\<lambda>s. \<lparr>search_block = Some (JStr s), replace_block = Some (JStr s)\<rparr>) ?B))"
  have rt: "\<forall>p \<in> set (split_lines_preserve ?T (detect_newline ?T)). \<not> lone_final_LF p"
    by code_simp
  have ex: "\<forall>s \<in> set ?B.
         locate_hunk (map StructuredLine (split_lines_preserve ?T (detect_newline ?T)))
           (map StructuredLine (re_split_newline s)) False \<noteq> []"
    by code_simp
  have "case ?r of Inr out \<Rightarrow> True | Inl e \<Rightarrow> False" by code_simp
  then obtain out where ok: "?r = Inr out" by (cases ?r) simp_all
  from self_replacement_exact[of ?T ?B out] rt ex ok have "out = ?T" by blast
  with ok show ?thesis by simp
qed

section \<open>The result of the applier's loop\<close>

lemma spliced_lines_agree:
  assumes "start a < end_idx a" and "end_idx a \<le> length cur" and "end_idx a \<le> length fl"
    and "take (end_idx a) cur = take (end_idx a) fl"
  shows "spliced_lines a cur = spliced_lines a fl"
proof -
  have n: "cur ! k = fl ! k" if "k < end_idx a" for k
  proof -
    have "cur ! k = take (end_idx a) cur ! k" using that by simp
    also have "\<dots> = take (end_idx a) fl ! k" using assms(4) by simp
    also have "\<dots> = fl ! k" using that by simp
    finally show ?thesis .
  qed
  have s: "start a < length cur" "start a < length fl" using assms(1-3) by simp_all
  have "(if start a + i < end_idx a then (cur ! (start a + i))\<lparr>content := content rl\<rparr>
         else rl\<lparr>indent := (if start a < length cur then indent (cur ! start a) else [])\<rparr>)
      = (if start a + i < end_idx a then (fl ! (start a + i))\<lparr>content := content rl\<rparr>
         else rl\<lparr>indent := (if start a < length fl then indent (fl ! start a) else [])\<rparr>)" for i rl
    using n[of "start a + i"] n[of "start a"] assms(1) s by simp
  then show ?thesis by (simp add: spliced_lines_def)
qed

lemma apply_loop_chain:
  assumes "\<forall>a \<in> set apps. start a < end_idx a \<and> end_idx a \<le> hi"
    and "hi \<le> length cur" and "hi \<le> length fl" and "take hi cur = take hi fl"
    and "sorted_wrt (\<lambda>a b. end_idx b \<le> start a) apps"
  shows "apply_loop apps cur = (None, spliced_below fl hi apps @ drop hi cur)"
  using assms
proof (induction apps arbitrary: hi cur)
  case Nil
  have "take hi cur @ drop hi cur = cur" by simp
  with Nil.prems(4) show ?case by simp
next
  case (Cons a rest)
  let ?s = "start a" and ?e = "end_idx a"
  have a: "?s < ?e" "?e \<le> hi" using Cons.prems(1) by simp_all
  have ec: "?e \<le> length cur" and ef: "?e \<le> length fl"
    using a Cons.prems(2,3) by simp_all
  have te: "take ?e cur = take ?e fl"
  proof -
    have "take ?e cur = take ?e (take hi cur)" using a(2) by (simp add: min_def)
    also have "\<dots> = take ?e (take hi fl)" using Cons.prems(4) by simp
    also have "\<dots> = take ?e fl" using a(2) by (simp add: min_def)
    finally show ?thesis .
  qed
  have sp: "spliced_lines a cur = spliced_lines a fl"
    using a(1) ec ef te by (rule spliced_lines_agree)
  let ?cur' = "take ?s cur @ spliced_lines a fl @ drop ?e cur"
  have one: "apply_one a cur = (None, ?cur')"
    using apply_one_in_range[OF ec] sp by simp
  have sl: "?s \<le> length cur" using a ec by simp
  have 1: "\<forall>b \<in> set rest. start b < end_idx b \<and> end_idx b \<le> ?s"
    using Cons.prems(1,5) by simp
  have 2: "?s \<le> length ?cur'" using sl by simp
  have 3: "?s \<le> length fl" using a ef by simp
  have 4: "take ?s ?cur' = take ?s fl"
  proof -
    have "take ?s ?cur' = take ?s cur" using sl by simp
    also have "\<dots> = take ?s (take ?e cur)" using a(1) by (simp add: min_def)
    also have "\<dots> = take ?s (take ?e fl)" using te by simp
    also have "\<dots> = take ?s fl" using a(1) by (simp add: min_def)
    finally show ?thesis .
  qed
  have 5: "sorted_wrt (\<lambda>a b. end_idx b \<le> start a) rest" using Cons.prems(5) by simp
  have ih: "apply_loop rest ?cur' = (None, spliced_below fl ?s rest @ drop ?s ?cur')"
    using 1 2 3 4 5 by (rule Cons.IH)
  have d: "drop ?s ?cur' = spliced_lines a fl @ drop ?e cur" using sl by simp
  have g: "drop ?e cur = take (hi - ?e) (drop ?e fl) @ drop hi cur"
  proof -
    have "take (hi - ?e) (drop ?e cur) = drop ?e (take hi cur)" by (simp add: drop_take)
    also have "\<dots> = drop ?e (take hi fl)" using Cons.prems(4) by simp
    also have "\<dots> = take (hi - ?e) (drop ?e fl)" by (simp add: drop_take)
    finally have t: "take (hi - ?e) (drop ?e cur) = take (hi - ?e) (drop ?e fl)" .
    have "drop (hi - ?e) (drop ?e cur) = drop hi cur" using a(2) by simp
    then have "drop ?e cur = take (hi - ?e) (drop ?e cur) @ drop hi cur"
      by (metis append_take_drop_id)
    with t show ?thesis by simp
  qed
  have "apply_loop (a # rest) cur = apply_loop rest ?cur'" using one by simp
  also have "\<dots> = (None, spliced_below fl ?s rest @ spliced_lines a fl @ drop ?e cur)"
    using ih d by simp
  also have "spliced_below fl ?s rest @ spliced_lines a fl @ drop ?e cur
      = spliced_below fl hi (a # rest) @ drop hi cur"
    using g by simp
  finally show ?case .
qed

lemma apply_loop_sorted_reverse:
  assumes "\<forall>a \<in> set apps. start a < end_idx a \<and> end_idx a \<le> length fl"
    and "sorted_wrt disjoint_ranges apps"
  shows "apply_loop (sorted_reverse apps) fl = (None, spliced_below fl (length fl) (sorted_reverse apps))"
proof -
  have c: "sorted_wrt (\<lambda>a b. end_idx b \<le> start a) (sorted_reverse apps)"
    using assms by (intro sorted_reverse_chain) auto
  have r: "\<forall>a \<in> set (sorted_reverse apps). start a < end_idx a \<and> end_idx a \<le> length fl"
    using assms(1) by simp
  from apply_loop_chain[OF r order_refl order_refl refl c] show ?thesis by simp
qed

lemma run_result:
  assumes "fst (hunk_loop (map StructuredLine (split_lines_preserve txt (detect_newline txt))) 0 hunks [] [])
             = Inr apps"
    and "\<not> check_overlaps apps"
  shows "apply_patch_text txt (Some hunks) =
     Inr (py_join (detect_newline txt)
            (map reconstruct
               (spliced_below (map StructuredLine (split_lines_preserve txt (detect_newline txt)))
                  (length (map StructuredLine (split_lines_preserve txt (detect_newline txt))))
                  (sorted_reverse apps))))"
proof -
  let ?fl = "map StructuredLine (split_lines_preserve txt (detect_newline txt))"
  from assms(1) obtain lg where h: "hunk_loop ?fl 0 hunks [] [] = (Inr apps, lg)"
    by (cases "hunk_loop ?fl 0 hunks [] []") auto
  have r: "\<forall>a \<in> set apps. start a < end_idx a \<and> end_idx a \<le> length ?fl"
    using h by (rule hunk_loop_applications_in_range)
  then have "\<forall>a \<in> set apps. start a < end_idx a" by blast
  with assms(2) have d: "sorted_wrt disjoint_ranges apps"
    by (simp add: check_overlaps_iff_not_disjoint)
  have a: "apply_loop (sorted_reverse apps) ?fl
      = (None, spliced_below ?fl (length ?fl) (sorted_reverse apps))"
    using r d by (rule apply_loop_sorted_reverse)
  from run_applied[OF h assms(2)] obtain fl' where
    a': "apply_loop (sorted_reverse apps) ?fl = (None, fl')"
    and rr: "apply_patch_run txt (Some hunks) =
       \<lparr>outcome = Inr (py_join (detect_newline txt) (map reconstruct fl')),
        final_lines = fl', logged_msgs = lg\<rparr>"
    by blast
  from a a' have "fl' = spliced_below ?fl (length ?fl) (sorted_reverse apps)" by simp
  with rr show ?thesis by (simp add: apply_patch_text_def)
qed

text \<open>
  C2. One round of the applier on a placement with \<open>start < end \<le> len(file_lines)\<close> puts
  new lines in place of the range \<open>[start, end)\<close>, one for every replacement line. The line
  at position \<open>i\<close> with \<open>start + i < end\<close> is the buffer line at \<open>start + i\<close> with its
  content replaced by the replacement line's content (indent and trailing stay). The line at a
  position with \<open>start + i \<ge> end\<close> is the replacement line with its indent replaced by the
  indent of the buffer line at \<open>start\<close> (content and trailing are its own). For placements
  that are in range and do not overlap, every round of the loop in descending order still
  meets the original buffer lines below the placement's \<open>end\<close>, and the list the loop ends
  with is the original buffer with the range of every placement replaced by these lines and
  all other lines kept. A run that locates every hunk and passes the overlap check returns
  the join of that list. Scenario B: buffer \<open>"  foo\n"\<close>, search block \<open>"foo"\<close>, replace
  block \<open>"foo\nextra"\<close> gives \<open>"  foo\n  extra\n"\<close>. Two hunks on \<open>"a\nb\nc"\<close>, replacing
  \<open>"a"\<close> by \<open>"X"\<close> and \<open>"c"\<close> by \<open>"Z"\<close>, give \<open>"X\nb\nZ"\<close>.
\<close>

theorem splice_semantics:
  "(start app < end_idx app \<and> end_idx app \<le> length file_lines \<longrightarrow>
      apply_one app file_lines =
        (None, take (start app) file_lines @ spliced_lines app file_lines @ drop (end_idx app) file_lines)
      \<and> length (spliced_lines app file_lines) = length (replace_lines app)
      \<and> (\<forall>i < length (replace_lines app).
           (start app + i < end_idx app \<longrightarrow>
              spliced_lines app file_lines ! i
                = (file_lines ! (start app + i))\<lparr>content := content (replace_lines app ! i)\<rparr>)
         \<and> (end_idx app \<le> start app + i \<longrightarrow>
              spliced_lines app file_lines ! i
                = (replace_lines app ! i)\<lparr>indent := indent (file_lines ! start app)\<rparr>)))
   \<and> ((\<forall>a \<in> set apps. start a < end_idx a \<and> end_idx a \<le> length file_lines)
        \<and> (\<forall>i j. i < j \<and> j < length apps \<longrightarrow> disjoint_ranges (apps ! i) (apps ! j))
       \<longrightarrow> every_round (\<lambda>a cur. take (end_idx a) cur = take (end_idx a) file_lines)
             (sorted_reverse apps) file_lines
           \<and> apply_loop (sorted_reverse apps) file_lines
               = (None, spliced_below file_lines (length file_lines) (sorted_reverse apps)))
   \<and> (fst (hunk_loop (map StructuredLine (split_lines_preserve file_text (detect_newline file_text)))
               0 hunks [] []) = Inr located
        \<and> \<not> check_overlaps located
       \<longrightarrow> apply_patch_text file_text (Some hunks) =
             Inr (py_join (detect_newline file_text)
                    (map reconstruct
                       (spliced_below
                          (map StructuredLine (split_lines_preserve file_text (detect_newline file_text)))
                          (length (map StructuredLine (split_lines_preserve file_text (detect_newline file_text))))
                          (sorted_reverse located)))))
   \<and> apply_patch_text ''  foo\<newline>''
        (Some [\<lparr>search_block = Some (JStr ''foo''), replace_block = Some (JStr ''foo\<newline>extra'')\<rparr>])
      = Inr ''  foo\<newline>  extra\<newline>''
   \<and> apply_patch_text ''a\<newline>b\<newline>c''
        (Some [\<lparr>search_block = Some (JStr ''a''), replace_block = Some (JStr ''X'')\<rparr>,
               \<lparr>search_block = Some (JStr ''c''), replace_block = Some (JStr ''Z'')\<rparr>])
      = Inr ''X\<newline>b\<newline>Z''
   \<and> apply_patch_text ''  a\<newline>b\<newline>c\<newline>d\<newline>e''
        (Some [\<lparr>search_block = Some (JStr ''a''), replace_block = Some (JStr ''X\<newline>Y'')\<rparr>,
               \<lparr>search_block = Some (JStr ''c\<newline>d''), replace_block = Some (JStr ''Z'')\<rparr>])
      = Inr ''  X\<newline>  Y\<newline>b\<newline>Z\<newline>e''"
proof -
  have A: "apply_one app file_lines =
        (None, take (start app) file_lines @ spliced_lines app file_lines @ drop (end_idx app) file_lines)
      \<and> length (spliced_lines app file_lines) = length (replace_lines app)
      \<and> (\<forall>i < length (replace_lines app).
           (start app + i < end_idx app \<longrightarrow>
              spliced_lines app file_lines ! i
                = (file_lines ! (start app + i))\<lparr>content := content (replace_lines app ! i)\<rparr>)
         \<and> (end_idx app \<le> start app + i \<longrightarrow>
              spliced_lines app file_lines ! i
                = (replace_lines app ! i)\<lparr>indent := indent (file_lines ! start app)\<rparr>))"
    if a: "start app < end_idx app \<and> end_idx app \<le> length file_lines"
  proof (intro conjI allI impI)
    from a have lt: "start app < length file_lines" by simp
    show "apply_one app file_lines =
           (None, take (start app) file_lines @ spliced_lines app file_lines @ drop (end_idx app) file_lines)"
      using a by (simp add: apply_one_in_range)
    show "length (spliced_lines app file_lines) = length (replace_lines app)"
      by (rule length_spliced_lines)
    show "spliced_lines app file_lines ! i =
        (file_lines ! (start app + i))\<lparr>content := content (replace_lines app ! i)\<rparr>"
      if "i < length (replace_lines app)" "start app + i < end_idx app" for i
      using that by (simp add: nth_spliced_lines)
    show "spliced_lines app file_lines ! i =
        (replace_lines app ! i)\<lparr>indent := indent (file_lines ! start app)\<rparr>"
      if "i < length (replace_lines app)" "end_idx app \<le> start app + i" for i
      using that lt by (simp add: nth_spliced_lines)
  qed
  have B: "every_round (\<lambda>a cur. take (end_idx a) cur = take (end_idx a) file_lines)
             (sorted_reverse apps) file_lines
           \<and> apply_loop (sorted_reverse apps) file_lines
               = (None, spliced_below file_lines (length file_lines) (sorted_reverse apps))"
    if h: "(\<forall>a \<in> set apps. start a < end_idx a \<and> end_idx a \<le> length file_lines)
        \<and> (\<forall>i j. i < j \<and> j < length apps \<longrightarrow> disjoint_ranges (apps ! i) (apps ! j))"
  proof
    from h have d: "sorted_wrt disjoint_ranges apps"
      by (simp add: sorted_wrt_iff_nth_less)
    from h have p: "\<forall>a \<in> set apps. start a < end_idx a \<and> end_idx a \<le> length file_lines"
      by blast
    have e: "every_round (\<lambda>a cur. start a < length cur \<and> end_idx a \<le> length cur
                          \<and> take (end_idx a) cur = take (end_idx a) file_lines)
             (sorted_reverse apps) file_lines"
      using p d by (rule every_round_sorted_reverse)
    show "every_round (\<lambda>a cur. take (end_idx a) cur = take (end_idx a) file_lines)
             (sorted_reverse apps) file_lines"
      by (rule every_round_mono[OF e]) simp
    show "apply_loop (sorted_reverse apps) file_lines
               = (None, spliced_below file_lines (length file_lines) (sorted_reverse apps))"
      using p d by (rule apply_loop_sorted_reverse)
  qed
  have C: "apply_patch_text file_text (Some hunks) =
             Inr (py_join (detect_newline file_text)
                    (map reconstruct
                       (spliced_below
                          (map StructuredLine (split_lines_preserve file_text (detect_newline file_text)))
                          (length (map StructuredLine (split_lines_preserve file_text (detect_newline file_text))))
                          (sorted_reverse located))))"
    if "fst (hunk_loop (map StructuredLine (split_lines_preserve file_text (detect_newline file_text)))
               0 hunks [] []) = Inr located \<and> \<not> check_overlaps located"
    using that by (intro run_result) simp_all
  have D: "apply_patch_text ''  foo\<newline>''
        (Some [\<lparr>search_block = Some (JStr ''foo''), replace_block = Some (JStr ''foo\<newline>extra'')\<rparr>])
      = Inr ''  foo\<newline>  extra\<newline>''"
    by code_simp
  have E: "apply_patch_text ''a\<newline>b\<newline>c''
        (Some [\<lparr>search_block = Some (JStr ''a''), replace_block = Some (JStr ''X'')\<rparr>,
               \<lparr>search_block = Some (JStr ''c''), replace_block = Some (JStr ''Z'')\<rparr>])
      = Inr ''X\<newline>b\<newline>Z''"
    by code_simp
  have F: "apply_patch_text ''  a\<newline>b\<newline>c\<newline>d\<newline>e''
        (Some [\<lparr>search_block = Some (JStr ''a''), replace_block = Some (JStr ''X\<newline>Y'')\<rparr>,
               \<lparr>search_block = Some (JStr ''c\<newline>d''), replace_block = Some (JStr ''Z'')\<rparr>])
      = Inr ''  X\<newline>  Y\<newline>b\<newline>Z\<newline>e''"
    by code_simp
  show ?thesis
    by (rule conjI[OF impI[OF A] conjI[OF impI[OF B] conjI[OF impI[OF C] conjI[OF D conjI[OF E F]]]]])
qed

theorem splice_semantics_witness:
  "apply_one \<lparr>start = 1, end_idx = 2,
              replace_lines = [\<lparr>original_line = ''x'', indent = [], content = ''x'', trailing = []\<rparr>,
                               \<lparr>original_line = ''y  '', indent = [], content = ''y'', trailing = ''  ''\<rparr>]\<rparr>
     [\<lparr>original_line = ''a'', indent = [], content = ''a'', trailing = []\<rparr>,
      \<lparr>original_line = ''  b '', indent = ''  '', content = ''b'', trailing = '' ''\<rparr>,
      \<lparr>original_line = ''c'', indent = [], content = ''c'', trailing = []\<rparr>]
   = (None, [\<lparr>original_line = ''a'', indent = [], content = ''a'', trailing = []\<rparr>,
            \<lparr>original_line = ''  b '', indent = ''  '', content = ''x'', trailing = '' ''\<rparr>,
            \<lparr>original_line = ''y  '', indent = ''  '', content = ''y'', trailing = ''  ''\<rparr>,
            \<lparr>original_line = ''c'', indent = [], content = ''c'', trailing = []\<rparr>])
   \<and> every_round
         (\<lambda>a cur. take (end_idx a) cur = take (end_idx a) (map StructuredLine [''  a '', ''b'', ''c'', ''d'']))
         (sorted_reverse
            [\<lparr>start = 0, end_idx = 1, replace_lines = map StructuredLine [''x'', ''y'']\<rparr>,
             \<lparr>start = 2, end_idx = 4, replace_lines = map StructuredLine [''z'']\<rparr>])
         (map StructuredLine [''  a '', ''b'', ''c'', ''d''])
   \<and> apply_loop
         (sorted_reverse
            [\<lparr>start = 0, end_idx = 1, replace_lines = map StructuredLine [''x'', ''y'']\<rparr>,
             \<lparr>start = 2, end_idx = 4, replace_lines = map StructuredLine [''z'']\<rparr>])
         (map StructuredLine [''  a '', ''b'', ''c'', ''d''])
       = (None, [\<lparr>original_line = ''  a '', indent = ''  '', content = ''x'', trailing = '' ''\<rparr>,
                \<lparr>original_line = ''y'', indent = ''  '', content = ''y'', trailing = []\<rparr>,
                \<lparr>original_line = ''b'', indent = [], content = ''b'', trailing = []\<rparr>,
                \<lparr>original_line = ''c'', indent = [], content = ''z'', trailing = []\<rparr>])
   \<and> apply_patch_text ''a\<newline>b\<newline>c''
        (Some [\<lparr>search_block = Some (JStr ''a''), replace_block = Some (JStr ''X'')\<rparr>,
               \<lparr>search_block = Some (JStr ''c''), replace_block = Some (JStr ''Z'')\<rparr>])
      = Inr ''X\<newline>b\<newline>Z''"
proof -
  let ?app = "\<lparr>start = 1, end_idx = 2,
                replace_lines = [\<lparr>original_line = ''x'', indent = [], content = ''x'', trailing = []\<rparr>,
                                 \<lparr>original_line = ''y  '', indent = [], content = ''y'', trailing = ''  ''\<rparr>]\<rparr>"
  let ?fl = "[\<lparr>original_line = ''a'', indent = [], content = ''a'', trailing = []\<rparr>,
        \<lparr>original_line = ''  b '', indent = ''  '', content = ''b'', trailing = '' ''\<rparr>,
        \<lparr>original_line = ''c'', indent = [], content = ''c'', trailing = []\<rparr>]"
  let ?n0 = "\<lparr>original_line = ''  b '', indent = ''  '', content = ''x'', trailing = '' ''\<rparr>"
  let ?n1 = "\<lparr>original_line = ''y  '', indent = ''  '', content = ''y'', trailing = ''  ''\<rparr>"
  have h: "start ?app < end_idx ?app \<and> end_idx ?app \<le> length ?fl" by simp
  note c1 = splice_semantics[where app = ?app and file_lines = ?fl, THEN conjunct1, THEN mp, OF h]
  from c1 have r: "apply_one ?app ?fl
      = (None, take (start ?app) ?fl @ spliced_lines ?app ?fl @ drop (end_idx ?app) ?fl)"
    by (rule conjunct1)
  from c1 have l: "length (spliced_lines ?app ?fl) = length (replace_lines ?app)"
    by (rule conjunct2[THEN conjunct1])
  from c1 have n: "\<forall>i < length (replace_lines ?app).
           (start ?app + i < end_idx ?app \<longrightarrow>
              spliced_lines ?app ?fl ! i
                = (?fl ! (start ?app + i))\<lparr>content := content (replace_lines ?app ! i)\<rparr>)
         \<and> (end_idx ?app \<le> start ?app + i \<longrightarrow>
              spliced_lines ?app ?fl ! i
                = (replace_lines ?app ! i)\<lparr>indent := indent (?fl ! start ?app)\<rparr>)"
    by (rule conjunct2[THEN conjunct2])
  from n[rule_format, of 0] have n0: "spliced_lines ?app ?fl ! 0 = ?n0" by simp
  from n[rule_format, of 1] have n1: "spliced_lines ?app ?fl ! 1 = ?n1" by simp
  have s: "spliced_lines ?app ?fl = [?n0, ?n1]"
  proof (rule nth_equalityI)
    show "length (spliced_lines ?app ?fl) = length [?n0, ?n1]" using l by simp
  next
    fix i assume "i < length (spliced_lines ?app ?fl)"
    with l have "i = 0 \<or> i = 1" by auto
    with n0 n1 show "spliced_lines ?app ?fl ! i = [?n0, ?n1] ! i" by auto
  qed
  have w1: "apply_one ?app ?fl = (None, [?fl ! 0, ?n0, ?n1, ?fl ! 2])"
    unfolding r s by simp
  let ?L = "[\<lparr>start = 0, end_idx = 1, replace_lines = map StructuredLine [''x'', ''y'']\<rparr>,
             \<lparr>start = 2, end_idx = 4, replace_lines = map StructuredLine [''z'']\<rparr>]"
  let ?F = "map StructuredLine [''  a '', ''b'', ''c'', ''d'']"
  have p: "\<forall>a \<in> set ?L. start a < end_idx a \<and> end_idx a \<le> length ?F" by simp
  have d: "\<forall>i j. i < j \<and> j < length ?L \<longrightarrow> disjoint_ranges (?L ! i) (?L ! j)"
    by (auto simp: disjoint_ranges_def less_Suc_eq)
  note c2 = splice_semantics[where apps = ?L and file_lines = ?F, THEN conjunct2, THEN conjunct1,
      THEN mp, OF conjI[OF p d]]
  have ev: "spliced_below ?F (length ?F) (sorted_reverse ?L)
      = [\<lparr>original_line = ''  a '', indent = ''  '', content = ''x'', trailing = '' ''\<rparr>,
         \<lparr>original_line = ''y'', indent = ''  '', content = ''y'', trailing = []\<rparr>,
         \<lparr>original_line = ''b'', indent = [], content = ''b'', trailing = []\<rparr>,
         \<lparr>original_line = ''c'', indent = [], content = ''z'', trailing = []\<rparr>]"
    by code_simp
  from c2 have w2: "every_round (\<lambda>a cur. take (end_idx a) cur = take (end_idx a) ?F) (sorted_reverse ?L) ?F"
    by (rule conjunct1)
  from c2 have w3: "apply_loop (sorted_reverse ?L) ?F
      = (None, [\<lparr>original_line = ''  a '', indent = ''  '', content = ''x'', trailing = '' ''\<rparr>,
         \<lparr>original_line = ''y'', indent = ''  '', content = ''y'', trailing = []\<rparr>,
         \<lparr>original_line = ''b'', indent = [], content = ''b'', trailing = []\<rparr>,
         \<lparr>original_line = ''c'', indent = [], content = ''z'', trailing = []\<rparr>])"
    unfolding ev by (rule conjunct2)
  let ?T = "''a\<newline>b\<newline>c''"
  let ?H = "[\<lparr>search_block = Some (JStr ''a''), replace_block = Some (JStr ''X'')\<rparr>,
             \<lparr>search_block = Some (JStr ''c''), replace_block = Some (JStr ''Z'')\<rparr>]"
  let ?A = "[\<lparr>start = 0, end_idx = 1, replace_lines = map StructuredLine [''X'']\<rparr>,
             \<lparr>start = 2, end_idx = 3, replace_lines = map StructuredLine [''Z'']\<rparr>]"
  have hl: "fst (hunk_loop (map StructuredLine (split_lines_preserve ?T (detect_newline ?T))) 0 ?H [] [])
      = Inr ?A"
    by code_simp
  have no: "\<not> check_overlaps ?A" by code_simp
  have ev2: "py_join (detect_newline ?T)
       (map reconstruct
          (spliced_below (map StructuredLine (split_lines_preserve ?T (detect_newline ?T)))
             (length (map StructuredLine (split_lines_preserve ?T (detect_newline ?T))))
             (sorted_reverse ?A)))
      = ''X\<newline>b\<newline>Z''"
    by code_simp
  note c3 = splice_semantics[where file_text = ?T and hunks = ?H and located = ?A,
      THEN conjunct2, THEN conjunct2, THEN conjunct1, THEN mp, OF conjI[OF hl no]]
  have w4: "apply_patch_text ?T (Some ?H) = Inr ''X\<newline>b\<newline>Z''"
    using c3 unfolding ev2 .
  from w1 have w1': "apply_one ?app ?fl
      = (None, [\<lparr>original_line = ''a'', indent = [], content = ''a'', trailing = []\<rparr>, ?n0, ?n1,
                \<lparr>original_line = ''c'', indent = [], content = ''c'', trailing = []\<rparr>])"
    by simp
  show ?thesis by (rule conjI[OF w1' conjI[OF w2 conjI[OF w3 w4]]])
qed

end
